theory Spec2Isabelle
  imports Main
begin

section \<open>Python strings\<close>

text \<open>
  A Python \<open>str\<close> is a sequence of code points. The model covers the strings whose code
  points are below 256: a \<^typ>\<open>char\<close> \<open>c\<close> stands for the code point \<open>of_char c\<close>, and
  \<^const>\<open>length\<close> counts code points as Python's \<open>len\<close> does.
\<close>

definition py_isspace :: "char \<Rightarrow> bool" where
  \<comment> \<open>\<open>str.isspace\<close> on one character; also the class \<open>\s\<close> of \<open>re\<close> and what \<open>str.strip()\<close> removes.\<close>
  "py_isspace c \<longleftrightarrow> (of_char c :: nat) \<in> {9, 10, 11, 12, 13, 28, 29, 30, 31, 32, 133, 160}"

definition py_strip :: "string \<Rightarrow> string" where
  "py_strip s = rev (dropWhile py_isspace (rev (dropWhile py_isspace s)))"

definition py_count_newline :: "string \<Rightarrow> nat" where
  \<comment> \<open>\<open>s.count("\n")\<close>\<close>
  "py_count_newline s = count_list s (CHR 0x0A)"

fun py_join :: "string \<Rightarrow> string list \<Rightarrow> string" where
  "py_join sep [] = []"
| "py_join sep [x] = x"
| "py_join sep (x # y # ys) = x @ sep @ py_join sep (y # ys)"

fun py_split :: "char \<Rightarrow> string \<Rightarrow> string list" where
  \<comment> \<open>\<open>s.split(sep)\<close> for a separator of one character\<close>
  "py_split sep [] = [[]]"
| "py_split sep (c # cs) =
     (let r = py_split sep cs in if c = sep then [] # r else (c # hd r) # tl r)"

definition digit_char :: "nat \<Rightarrow> char" where
  "digit_char d = char_of (48 + d)"

fun str_nat :: "nat \<Rightarrow> string" where
  "str_nat n = (if n < 10 then [digit_char n] else str_nat (n div 10) @ [digit_char (n mod 10)])"

declare str_nat.simps [simp del]

definition str_int :: "int \<Rightarrow> string" where
  \<comment> \<open>\<open>str(i)\<close> for an \<open>int\<close>\<close>
  "str_int i = (if i < 0 then CHR ''-'' # str_nat (nat (- i)) else str_nat (nat i))"

section \<open>The recognition pattern \<open>CODE_TOKEN_RE\<close>\<close>

definition py_isword :: "char \<Rightarrow> bool" where
  \<comment> \<open>the class \<open>\w\<close> of \<open>re\<close> on a \<open>str\<close> pattern: alphanumeric or underscore\<close>
  "py_isword c \<longleftrightarrow>
     (let n = (of_char c :: nat) in
        (48 \<le> n \<and> n \<le> 57) \<or> (65 \<le> n \<and> n \<le> 90) \<or> n = 95 \<or> (97 \<le> n \<and> n \<le> 122) \<or>
        n \<in> {170, 178, 179, 181, 185, 186, 188, 189, 190} \<or>
        (192 \<le> n \<and> n \<le> 214) \<or> (216 \<le> n \<and> n \<le> 246) \<or> (248 \<le> n \<and> n \<le> 255))"

definition ascii_lower :: "char \<Rightarrow> char" where
  \<comment> \<open>\<open>re.IGNORECASE\<close> against the ASCII letters of the pattern: below code point 256 only
      \<open>A\<close>..\<open>Z\<close> fold onto them\<close>
  "ascii_lower c =
     (let n = (of_char c :: nat) in if 65 \<le> n \<and> n \<le> 90 then char_of (n + 32) else c)"

definition lit_ci :: "string \<Rightarrow> string \<Rightarrow> bool" where
  \<comment> \<open>the lower-case literal \<open>p\<close> matches at the start of \<open>s\<close>, ignoring case\<close>
  "lit_ci p s \<longleftrightarrow> length p \<le> length s \<and> map ascii_lower (take (length p) s) = p"

definition lit_ws_paren :: "string \<Rightarrow> string \<Rightarrow> bool" where
  \<comment> \<open>\<open>p\s*\(\<close> matches at the start of \<open>s\<close>\<close>
  "lit_ws_paren p s \<longleftrightarrow>
     lit_ci p s \<and>
     (case dropWhile py_isspace (drop (length p) s) of [] \<Rightarrow> False | c # _ \<Rightarrow> c = CHR ''('')"

definition token_at :: "string \<Rightarrow> bool" where
  \<comment> \<open>one alternative of the group matches at the start of \<open>s\<close>\<close>
  "token_at s \<longleftrightarrow>
     list_ex (\<lambda>p. lit_ci p s)
       [''def'', ''class'', ''function'', ''const'', ''let'', ''var'', ''import'', ''from'',
        ''public'', ''private''] \<or>
     list_ex (\<lambda>p. lit_ws_paren p s) [''if'', ''for'', ''while''] \<or>
     list_ex (\<lambda>p. lit_ci p s) [''=>'', ''console.log'', ''print('', ''println('']"

definition word_boundary :: "char option \<Rightarrow> string \<Rightarrow> bool" where
  \<comment> \<open>\<open>\b\<close> between the previous character (if any) and the rest of the string\<close>
  "word_boundary prev s \<longleftrightarrow>
     (case prev of None \<Rightarrow> False | Some c \<Rightarrow> py_isword c) \<noteq>
     (case s of [] \<Rightarrow> False | c # _ \<Rightarrow> py_isword c)"

fun search_from :: "char option \<Rightarrow> string \<Rightarrow> bool" where
  "search_from prev [] = False"
| "search_from prev (c # cs) =
     ((word_boundary prev (c # cs) \<and> token_at (c # cs)) \<or> search_from (Some c) cs)"

definition CODE_TOKEN_RE_search :: "string \<Rightarrow> bool" where
  \<comment> \<open>\<open>CODE_TOKEN_RE.search(s)\<close> finds a match\<close>
  "CODE_TOKEN_RE_search s = search_from None s"

section \<open>JSON values\<close>

text \<open>
  What \<open>request.get_json\<close> hands to the program. A \<open>dict\<close> is the list of its items in
  insertion order; a \<open>float\<close> is carried as its \<open>repr\<close>, which identifies it and is all the
  program reads of it (its text and whether it is zero).
\<close>

datatype json =
    JNull
  | JBool bool
  | JInt int
  | JFloat string
  | JStr string
  | JList "json list"
  | JDict "(string \<times> json) list"

section \<open>The extractor\<close>

type_synonym candidate = "int \<times> string \<times> string list"

definition score_of :: "string \<Rightarrow> int" where
  "score_of s = int (py_count_newline s) * 10 + (if CODE_TOKEN_RE_search s then 20 else 0)"

definition index_token :: "nat \<Rightarrow> string" where
  \<comment> \<open>\<open>f"[{i}]"\<close>\<close>
  "index_token i = ''['' @ str_nat i @ '']''"

function walk :: "json \<Rightarrow> string list \<Rightarrow> candidate list \<Rightarrow> candidate list" where
  \<comment> \<open>the inner function \<open>walk\<close>; the list \<open>candidates\<close> it appends to is passed and returned\<close>
  "walk (JDict items) path_tokens candidates =
     fold (\<lambda>(k, v) cands. walk v (path_tokens @ [k]) cands) items candidates"
| "walk (JList xs) path_tokens candidates =
     fold (\<lambda>(i, v) cands. walk v (path_tokens @ [index_token i]) cands)
       (enumerate 0 xs) candidates"
| "walk (JStr o') path_tokens candidates =
     (let s = py_strip o' in
        if length s < 10 then candidates
        else candidates @ [(score_of s, s, path_tokens)])"
| "walk JNull path_tokens candidates = candidates"
| "walk (JBool b) path_tokens candidates = candidates"
| "walk (JInt i) path_tokens candidates = candidates"
| "walk (JFloat f) path_tokens candidates = candidates"
  by pat_completeness auto
termination
proof (relation "measure (\<lambda>(v, p, c). size v)", goal_cases)
  case 1
  show ?case by simp
next
  case (2 items path_tokens candidates x k v cands)
  have "(k, v) \<in> set kvs \<Longrightarrow> size v < size (JDict kvs)" for kvs
    by (induction kvs) auto
  with 2 show ?case by simp
next
  case (3 xs path_tokens candidates x i v cands)
  have "v \<in> set ys \<Longrightarrow> size v < size (JList ys)" for ys
    by (induction ys) auto
  moreover from 3 have "v \<in> set xs" by (auto simp: in_set_enumerate_eq)
  ultimately show ?case by simp
qed

definition py_sort_reverse :: "('a \<Rightarrow> int) \<Rightarrow> 'a list \<Rightarrow> 'a list" where
  \<comment> \<open>\<open>list.sort(key=key, reverse=True)\<close>: the list is reversed, sorted stably in ascending
      order of the key, and reversed again\<close>
  "py_sort_reverse key xs = rev (sort_key key (rev xs))"

definition extract_code_from_json :: "json \<Rightarrow> string option \<times> string option" where
  "extract_code_from_json obj =
     (let candidates = walk obj [] [] in
        if candidates = [] then (None, None)
        else
          (let sorted = py_sort_reverse fst candidates;
               (_, code, path_tokens) = hd sorted;
               path_str = py_join ''.'' path_tokens
           in (Some code, Some path_str)))"

section \<open>Values as text\<close>

definition hex_digit :: "nat \<Rightarrow> char" where
  "hex_digit d = ''0123456789abcdef'' ! (d mod 16)"

definition py_isprintable :: "char \<Rightarrow> bool" where
  \<comment> \<open>\<open>str.isprintable\<close> on one character\<close>
  "py_isprintable c \<longleftrightarrow>
     (let n = (of_char c :: nat) in \<not> (n < 32 \<or> (127 \<le> n \<and> n \<le> 160) \<or> n = 173))"

definition repr_char :: "char \<Rightarrow> char \<Rightarrow> string" where
  "repr_char quote c =
     (if c = quote \<or> c = CHR 0x5C then [CHR 0x5C, c]
      else if c = CHR 0x09 then [CHR 0x5C, CHR ''t'']
      else if c = CHR 0x0A then [CHR 0x5C, CHR ''n'']
      else if c = CHR 0x0D then [CHR 0x5C, CHR ''r'']
      else if py_isprintable c then [c]
      else [CHR 0x5C, CHR ''x'', hex_digit (of_char c div 16), hex_digit (of_char c mod 16)])"

definition repr_str :: "string \<Rightarrow> string" where
  \<comment> \<open>\<open>repr(s)\<close> of a \<open>str\<close>: single quotes, unless the string has one and no double quote\<close>
  "repr_str s =
     (let quote = (if CHR 0x27 \<in> set s \<and> CHR 0x22 \<notin> set s then CHR 0x22 else CHR 0x27)
      in [quote] @ concat (map (repr_char quote) s) @ [quote])"

function py_repr :: "json \<Rightarrow> string" where
  "py_repr JNull = ''None''"
| "py_repr (JBool b) = (if b then ''True'' else ''False'')"
| "py_repr (JInt i) = str_int i"
| "py_repr (JFloat f) = f"
| "py_repr (JStr s) = repr_str s"
| "py_repr (JList xs) = ''['' @ py_join '', '' (map py_repr xs) @ '']''"
| "py_repr (JDict items) =
     ''{'' @ py_join '', '' (map (\<lambda>(k, v). repr_str k @ '': '' @ py_repr v) items) @ ''}''"
  by pat_completeness auto
termination
proof (relation "measure size", goal_cases)
  case 1
  show ?case by simp
next
  case (2 xs x)
  have "v \<in> set ys \<Longrightarrow> size v < size (JList ys)" for v ys
    by (induction ys) auto
  with 2 show ?case by simp
next
  case (3 items x k v)
  have "(k, v) \<in> set kvs \<Longrightarrow> size v < size (JDict kvs)" for kvs
    by (induction kvs) auto
  with 3 show ?case by simp
qed

definition py_str :: "json \<Rightarrow> string" where
  \<comment> \<open>\<open>str(x)\<close>\<close>
  "py_str x = (case x of JStr s \<Rightarrow> s | _ \<Rightarrow> py_repr x)"

definition truthy :: "json \<Rightarrow> bool" where
  \<comment> \<open>the truth value Python gives \<open>x\<close> in \<open>if x\<close>, \<open>not x\<close> and \<open>x or y\<close>\<close>
  "truthy x =
     (case x of
        JNull \<Rightarrow> False
      | JBool b \<Rightarrow> b
      | JInt i \<Rightarrow> i \<noteq> 0
      | JFloat f \<Rightarrow> f \<noteq> ''0.0'' \<and> f \<noteq> ''-0.0''
      | JStr s \<Rightarrow> s \<noteq> []
      | JList xs \<Rightarrow> xs \<noteq> []
      | JDict items \<Rightarrow> items \<noteq> [])"

section \<open>\<open>normalize_code\<close>\<close>

definition is_str_int_float :: "json \<Rightarrow> bool" where
  \<comment> \<open>\<open>isinstance(x, (str, int, float))\<close>; \<open>bool\<close> is a subclass of \<open>int\<close>\<close>
  "is_str_int_float x =
     (case x of JStr _ \<Rightarrow> True | JInt _ \<Rightarrow> True | JBool _ \<Rightarrow> True | JFloat _ \<Rightarrow> True | _ \<Rightarrow> False)"

definition normalize_code :: "json \<Rightarrow> string option" where
  "normalize_code value =
     (case value of
        JNull \<Rightarrow> None
      | JStr s \<Rightarrow> Some s
      | JList xs \<Rightarrow> Some (py_join [CHR 0x0A] (map py_str (filter is_str_int_float xs)))
      | _ \<Rightarrow> Some (py_str value))"

section \<open>Walking an explicit path\<close>

datatype py_exn = AttributeError | TypeError | ValueError | IndexError | KeyError | ServiceError

definition int_isspace :: "char \<Rightarrow> bool" where
  \<comment> \<open>the white space \<open>int(s)\<close> skips around the number\<close>
  "int_isspace c \<longleftrightarrow> (of_char c :: nat) \<in> {9, 10, 11, 12, 13, 32, 133, 160}"

definition is_digit :: "char \<Rightarrow> bool" where
  "is_digit c \<longleftrightarrow> 48 \<le> (of_char c :: nat) \<and> (of_char c :: nat) \<le> 57"

definition digit_val :: "char \<Rightarrow> nat" where
  "digit_val c = of_char c - 48"

fun parse_digits :: "nat \<Rightarrow> string \<Rightarrow> nat option" where
  \<comment> \<open>the digits after the first, single underscores allowed between two digits\<close>
  "parse_digits acc [] = Some acc"
| "parse_digits acc [c] = (if is_digit c then Some (acc * 10 + digit_val c) else None)"
| "parse_digits acc (c # d # ds) =
     (if is_digit c then parse_digits (acc * 10 + digit_val c) (d # ds)
      else if c = CHR ''_'' \<and> is_digit d then parse_digits (acc * 10 + digit_val d) ds
      else None)"

definition parse_unsigned :: "string \<Rightarrow> nat option" where
  "parse_unsigned s =
     (case s of [] \<Rightarrow> None | c # cs \<Rightarrow> if is_digit c then parse_digits (digit_val c) cs else None)"

definition py_int :: "string \<Rightarrow> int option" where
  \<comment> \<open>\<open>int(s)\<close>; \<open>None\<close> when it raises \<open>ValueError\<close>\<close>
  "py_int s =
     (let t = rev (dropWhile int_isspace (rev (dropWhile int_isspace s)))
      in case t of
           [] \<Rightarrow> None
         | c # cs \<Rightarrow>
             if c = CHR ''-'' then map_option (\<lambda>n. - int n) (parse_unsigned cs)
             else if c = CHR ''+'' then map_option int (parse_unsigned cs)
             else map_option int (parse_unsigned t))"

definition seq_index :: "'a list \<Rightarrow> int \<Rightarrow> py_exn + 'a" where
  \<comment> \<open>\<open>xs[i]\<close> on a \<open>list\<close> or \<open>str\<close>: a negative index counts from the end\<close>
  "seq_index xs i =
     (if 0 \<le> i \<and> i < int (length xs) then Inr (xs ! nat i)
      else if i < 0 \<and> - i \<le> int (length xs) then Inr (xs ! nat (int (length xs) + i))
      else Inl IndexError)"

definition py_getitem :: "json \<Rightarrow> int \<Rightarrow> py_exn + json" where
  \<comment> \<open>\<open>cur[i]\<close> for an \<open>int\<close> \<open>i\<close>\<close>
  "py_getitem cur i =
     (case cur of
        JList xs \<Rightarrow> seq_index xs i
      | JStr s \<Rightarrow> (case seq_index s i of Inl e \<Rightarrow> Inl e | Inr c \<Rightarrow> Inr (JStr [c]))
      | JDict items \<Rightarrow> Inl KeyError
      | _ \<Rightarrow> Inl TypeError)"

definition dict_get :: "(string \<times> json) list \<Rightarrow> string \<Rightarrow> json" where
  \<comment> \<open>\<open>d.get(k)\<close> on a \<open>dict\<close>: \<open>None\<close> for a missing key\<close>
  "dict_get items k = (case map_of items k of None \<Rightarrow> JNull | Some v \<Rightarrow> v)"

definition py_get :: "json \<Rightarrow> string \<Rightarrow> py_exn + json" where
  \<comment> \<open>\<open>cur.get(k)\<close>: only a \<open>dict\<close> has the method\<close>
  "py_get cur k = (case cur of JDict items \<Rightarrow> Inr (dict_get items k) | _ \<Rightarrow> Inl AttributeError)"

definition is_index_segment :: "string \<Rightarrow> bool" where
  \<comment> \<open>\<open>p.startswith("[") and p.endswith("]")\<close>\<close>
  "is_index_segment p \<longleftrightarrow> p \<noteq> [] \<and> hd p = CHR ''['' \<and> last p = CHR '']''"

definition path_step :: "json \<Rightarrow> string \<Rightarrow> py_exn + json" where
  "path_step cur p =
     (if is_index_segment p then
        (case py_int (butlast (tl p)) of None \<Rightarrow> Inl ValueError | Some i \<Rightarrow> py_getitem cur i)
      else py_get cur p)"

fun walk_path :: "string list \<Rightarrow> json \<Rightarrow> py_exn + json" where
  \<comment> \<open>the loop \<open>for p in parts\<close>, stopped by the first exception\<close>
  "walk_path [] cur = Inr cur"
| "walk_path (p # parts) cur =
     (case path_step cur p of Inl e \<Rightarrow> Inl e | Inr cur' \<Rightarrow> walk_path parts cur')"

section \<open>The request handler\<close>

type_synonym resolution = "string option \<times> string option"
  \<comment> \<open>the variables \<open>code_value\<close> and \<open>used_path\<close>\<close>

definition str_truthy :: "string option \<Rightarrow> bool" where
  \<comment> \<open>the truth value of \<open>code_value\<close>, a \<open>str\<close> or \<open>None\<close>\<close>
  "str_truthy v = (case v of None \<Rightarrow> False | Some s \<Rightarrow> s \<noteq> [])"

definition try_explicit_path :: "json \<Rightarrow> json \<Rightarrow> py_exn + resolution" where
  \<comment> \<open>the block under \<open># Try explicit path\<close>; \<open>split\<close> is called outside the \<open>try\<close>\<close>
  "try_explicit_path payload code_path =
     (if truthy code_path then
        (case code_path of
           JStr cp \<Rightarrow>
             (case walk_path (py_split (CHR ''.'') cp) payload of
                Inl e \<Rightarrow> Inr (None, None)
              | Inr cur \<Rightarrow> Inr (normalize_code cur, Some cp))
         | _ \<Rightarrow> Inl AttributeError)
      else Inr (None, None))"

fun common_loop :: "string list \<Rightarrow> json \<Rightarrow> resolution \<Rightarrow> py_exn + resolution" where
  "common_loop [] payload r = Inr r"
| "common_loop (common # rest) payload r =
     (case py_get payload common of
        Inl e \<Rightarrow> Inl e
      | Inr cur \<Rightarrow>
          if truthy cur then Inr (normalize_code cur, Some common)
          else common_loop rest payload r)"

definition try_common_fields :: "json \<Rightarrow> resolution \<Rightarrow> py_exn + resolution" where
  \<comment> \<open>the block under \<open># Try common fields\<close>\<close>
  "try_common_fields payload r =
     (if \<not> str_truthy (fst r)
      then common_loop [''code'', ''source'', ''snippet'', ''text''] payload r
      else Inr r)"

definition try_auto_extract :: "json \<Rightarrow> resolution \<Rightarrow> resolution" where
  \<comment> \<open>the block under \<open># Auto-extract\<close>\<close>
  "try_auto_extract payload r =
     (if \<not> str_truthy (fst r) then
        (let (code_value, auto_path) = extract_code_from_json payload
         in (code_value, if str_truthy code_value then auto_path else snd r))
      else r)"

definition resolve :: "json \<Rightarrow> json \<Rightarrow> py_exn + resolution" where
  \<comment> \<open>the three blocks in sequence\<close>
  "resolve payload code_path =
     (case try_explicit_path payload code_path of
        Inl e \<Rightarrow> Inl e
      | Inr r1 \<Rightarrow>
          (case try_common_fields payload r1 of
             Inl e \<Rightarrow> Inl e
           | Inr r2 \<Rightarrow> Inr (try_auto_extract payload r2)))"

definition py_or :: "json \<Rightarrow> json \<Rightarrow> json" where
  \<comment> \<open>\<open>x or y\<close>\<close>
  "py_or x y = (if truthy x then x else y)"

definition build_prompt :: "json \<Rightarrow> string \<Rightarrow> string" where
  "build_prompt language code_value =
     [CHR 0x0A] @ ''You are an expert programming tutor.'' @ [CHR 0x0A] @
     ''Explain the following '' @ py_str language @ '' code line by line in simple terms.'' @
     [CHR 0x0A] @ ''Return a readable text format like:'' @ [CHR 0x0A] @
     ''Line 1: <code>'' @ [CHR 0x0A] @ ''Explanation: <explanation>'' @ [CHR 0x0A] @ [CHR 0x0A] @
     ''Here is the code:'' @ [CHR 0x0A] @ code_value @ [CHR 0x0A]"

definition preview_of :: "string \<Rightarrow> string" where
  "preview_of code_value =
     (if length code_value \<le> 2000 then code_value
      else take 2000 code_value @ [CHR 0x0A] @ ''... (truncated)'')"

record response =
  extracted_path :: "string option"
  extracted_preview :: string
  language :: json
  explanation :: string

datatype outcome =
    Success response
  | Failure nat string
  | Raised py_exn

text \<open>
  The generation service is a parameter: \<open>generate prompt\<close> is the explanation text the
  handler reads off the reply, or \<open>None\<close> when the call raises. The handler's result is
  paired with the prompts it sent to the service. \<open>body\<close> is the value of
  \<open>request.get_json(silent=True)\<close>, \<open>JNull\<close> when the request has no parseable JSON.
  \<open>Failure status msg\<close> is the reply \<open>{"error": msg}\<close> with that status, \<open>Raised e\<close>
  an exception that leaves the handler.
\<close>

definition request_payload :: "(string \<times> json) list \<Rightarrow> json" where
  \<comment> \<open>\<open>body.get("payload", body)\<close>\<close>
  "request_payload items = (case map_of items ''payload'' of None \<Rightarrow> JDict items | Some v \<Rightarrow> v)"

definition request_code_path :: "(string \<times> json) list \<Rightarrow> json" where
  \<comment> \<open>\<open>body.get("code_path") or None\<close>\<close>
  "request_code_path items = py_or (dict_get items ''code_path'') JNull"

definition request_language :: "(string \<times> json) list \<Rightarrow> json" where
  \<comment> \<open>\<open>body.get("language") or "unspecified"\<close>\<close>
  "request_language items = py_or (dict_get items ''language'') (JStr ''unspecified'')"

definition respond :: "(string \<Rightarrow> string option) \<Rightarrow> (string \<times> json) list \<Rightarrow> resolution \<Rightarrow> outcome \<times> string list" where
  \<comment> \<open>from \<open>if not code_value\<close> to the end of the handler\<close>
  "respond generate items r =
     (case fst r of
        None \<Rightarrow> (Failure 400 ''No code found'', [])
      | Some code \<Rightarrow>
          if code = [] then (Failure 400 ''No code found'', [])
          else
            (let lang = request_language items;
                 prompt = build_prompt lang code
             in case generate prompt of
                  None \<Rightarrow> (Raised ServiceError, [prompt])
                | Some text \<Rightarrow>
                    (Success \<lparr>extracted_path = snd r,
                              extracted_preview = preview_of code,
                              language = lang,
                              explanation = text\<rparr>,
                     [prompt])))"

definition resolve_and_respond ::
  "(string \<Rightarrow> string option) \<Rightarrow> (string \<times> json) list \<Rightarrow> json \<Rightarrow> json \<Rightarrow> outcome \<times> string list" where
  \<comment> \<open>the handler once \<open>payload\<close> and \<open>code_path\<close> are bound\<close>
  "resolve_and_respond generate items payload code_path =
     (case resolve payload code_path of
        Inl e \<Rightarrow> (Raised e, [])
      | Inr r \<Rightarrow> respond generate items r)"

definition explain_json_route :: "(string \<Rightarrow> string option) \<Rightarrow> json \<Rightarrow> outcome \<times> string list" where
  "explain_json_route generate body =
     (if \<not> truthy body then (Failure 400 ''Invalid request'', [])
      else
        (case body of
           JDict items \<Rightarrow>
             resolve_and_respond generate items (request_payload items) (request_code_path items)
         | _ \<Rightarrow> (Raised AttributeError, [])))"

section \<open>The traversal as the specification words it\<close>

function string_leaves :: "json \<Rightarrow> string list \<Rightarrow> (string list \<times> string) list" where
  \<comment> \<open>the string leaves of a value with their paths, in depth-first pre-order: the entries of
      a mapping in insertion order, the elements of a sequence in index order\<close>
  "string_leaves (JDict items) path =
     concat (map (\<lambda>(k, v). string_leaves v (path @ [k])) items)"
| "string_leaves (JList xs) path =
     concat (map (\<lambda>(i, v). string_leaves v (path @ [index_token i])) (enumerate 0 xs))"
| "string_leaves (JStr s) path = [(path, s)]"
| "string_leaves JNull path = []"
| "string_leaves (JBool b) path = []"
| "string_leaves (JInt i) path = []"
| "string_leaves (JFloat f) path = []"
  by pat_completeness auto
termination
proof (relation "measure (\<lambda>(v, p). size v)", goal_cases)
  case 1
  show ?case by simp
next
  case (2 items path x k v)
  have "(k, v) \<in> set kvs \<Longrightarrow> size v < size (JDict kvs)" for kvs
    by (induction kvs) auto
  with 2 show ?case by simp
next
  case (3 xs path x i v)
  have "v \<in> set ys \<Longrightarrow> size v < size (JList ys)" for ys
    by (induction ys) auto
  moreover from 3 have "v \<in> set xs" by (auto simp: in_set_enumerate_eq)
  ultimately show ?case by simp
qed

definition qualifies :: "string \<Rightarrow> bool" where
  \<comment> \<open>a string leaf survives the length filter\<close>
  "qualifies s \<longleftrightarrow> 10 \<le> length (py_strip s)"

definition candidate_of :: "string list \<times> string \<Rightarrow> candidate" where
  \<comment> \<open>the candidate \<open>walk\<close> appends for a leaf that survives\<close>
  "candidate_of l = (score_of (py_strip (snd l)), py_strip (snd l), fst l)"

definition leaf_score :: "string list \<times> string \<Rightarrow> int" where
  \<comment> \<open>the score of a leaf: that of its trimmed text\<close>
  "leaf_score l = score_of (py_strip (snd l))"

definition qualifying_leaves :: "json \<Rightarrow> (string list \<times> string) list" where
  \<comment> \<open>the leaves that survive the length filter, in traversal order\<close>
  "qualifying_leaves obj = filter (\<lambda>l. qualifies (snd l)) (string_leaves obj [])"

function dict_keys_distinct :: "json \<Rightarrow> bool" where
  \<comment> \<open>what every Python \<open>dict\<close> satisfies: no key occurs twice\<close>
  "dict_keys_distinct (JDict items) =
     (distinct (map fst items) \<and> list_all (\<lambda>(k, v). dict_keys_distinct v) items)"
| "dict_keys_distinct (JList xs) = list_all dict_keys_distinct xs"
| "dict_keys_distinct (JStr s) = True"
| "dict_keys_distinct JNull = True"
| "dict_keys_distinct (JBool b) = True"
| "dict_keys_distinct (JInt i) = True"
| "dict_keys_distinct (JFloat f) = True"
  by pat_completeness auto
termination
proof (relation "measure size", goal_cases)
  case 1
  show ?case by simp
next
  case (2 items x k v)
  have "(k, v) \<in> set kvs \<Longrightarrow> size v < size (JDict kvs)" for kvs
    by (induction kvs) auto
  with 2 show ?case by simp
next
  case (3 xs x)
  have "v \<in> set ys \<Longrightarrow> size v < size (JList ys)" for v ys
    by (induction ys) auto
  with 3 show ?case by simp
qed

definition plain_key :: "string \<Rightarrow> bool" where
  \<comment> \<open>a key with no \<open>.\<close> that does not both start with \<open>[\<close> and end with \<open>]\<close>\<close>
  "plain_key k \<longleftrightarrow> CHR ''.'' \<notin> set k \<and> \<not> is_index_segment k"

function keys_plain :: "json \<Rightarrow> bool" where
  \<comment> \<open>every mapping key, at every depth, is plain\<close>
  "keys_plain (JDict items) = list_all (\<lambda>(k, v). plain_key k \<and> keys_plain v) items"
| "keys_plain (JList xs) = list_all keys_plain xs"
| "keys_plain (JStr s) = True"
| "keys_plain JNull = True"
| "keys_plain (JBool b) = True"
| "keys_plain (JInt i) = True"
| "keys_plain (JFloat f) = True"
  by pat_completeness auto
termination
proof (relation "measure size", goal_cases)
  case 1
  show ?case by simp
next
  case (2 items x k v)
  have "(k, v) \<in> set kvs \<Longrightarrow> size v < size (JDict kvs)" for kvs
    by (induction kvs) auto
  with 2 show ?case by simp
next
  case (3 xs x)
  have "v \<in> set ys \<Longrightarrow> size v < size (JList ys)" for v ys
    by (induction ys) auto
  with 3 show ?case by simp
qed

section \<open>Lemmas on the extractor\<close>

lemma fold_append_shape:
  assumes "\<And>x c. x \<in> set xs \<Longrightarrow> f x c = c @ map mk (filter q (g x))"
  shows "fold f xs c = c @ map mk (filter q (concat (map g xs)))"
  using assms by (induction xs arbitrary: c) simp_all

lemma walk_string_leaves:
  "walk v p c = c @ map candidate_of (filter (\<lambda>l. qualifies (snd l)) (string_leaves v p))"
proof (induction v p c rule: walk.induct)
  case (1 items path_tokens candidates)
  have "fold (\<lambda>(k, v) cands. walk v (path_tokens @ [k]) cands) items candidates =
        candidates @ map candidate_of (filter (\<lambda>l. qualifies (snd l))
          (concat (map (\<lambda>(k, v). string_leaves v (path_tokens @ [k])) items)))"
    by (rule fold_append_shape) (use 1 in \<open>auto split: prod.splits\<close>)
  then show ?case by simp
next
  case (2 xs path_tokens candidates)
  have "fold (\<lambda>(i, v) cands. walk v (path_tokens @ [index_token i]) cands) (enumerate 0 xs) candidates =
        candidates @ map candidate_of (filter (\<lambda>l. qualifies (snd l))
          (concat (map (\<lambda>(i, v). string_leaves v (path_tokens @ [index_token i])) (enumerate 0 xs))))"
    by (rule fold_append_shape) (use 2 in \<open>auto split: prod.splits\<close>)
  then show ?case by simp
next
  case (3 o' path_tokens candidates)
  then show ?case by (simp add: candidate_of_def qualifies_def Let_def)
qed simp_all

lemma last_insort_key:
  "last (insort_key f x xs) = (if \<forall>y \<in> set xs. f y < f x then x else last xs)"
  by (induction xs) (auto simp: not_less)

lemma hd_py_sort_reverse_snoc:
  "hd (py_sort_reverse f (xs @ [x])) =
     (if \<forall>y \<in> set xs. f y < f x then x else hd (py_sort_reverse f xs))"
proof -
  let ?S = "sort_key f (rev xs)"
  have ins: "insort_key f x ?S \<noteq> []"
    by (metis length_insort length_0_conv nat.distinct(1))
  have "hd (py_sort_reverse f (xs @ [x])) = last (insort_key f x ?S)"
    using ins by (simp add: py_sort_reverse_def hd_rev)
  also have "\<dots> = (if \<forall>y \<in> set xs. f y < f x then x else last ?S)"
    by (simp add: last_insort_key)
  also have "\<dots> = (if \<forall>y \<in> set xs. f y < f x then x else hd (py_sort_reverse f xs))"
  proof (cases "\<forall>y \<in> set xs. f y < f x")
    case True
    then show ?thesis by simp
  next
    case False
    then have "xs \<noteq> []" by auto
    then have "?S \<noteq> []" by (metis length_sort length_rev length_0_conv)
    then have "last ?S = hd (py_sort_reverse f xs)" by (simp add: py_sort_reverse_def hd_rev)
    then show ?thesis by simp
  qed
  finally show ?thesis .
qed

lemma hd_py_sort_reverse:
  "xs \<noteq> [] \<Longrightarrow> \<exists>pre post. xs = pre @ hd (py_sort_reverse f xs) # post \<and>
     (\<forall>d \<in> set pre. f d < f (hd (py_sort_reverse f xs))) \<and>
     (\<forall>d \<in> set post. f d \<le> f (hd (py_sort_reverse f xs)))"
proof (induction xs rule: rev_induct)
  case Nil
  then show ?case by simp
next
  case (snoc x xs)
  let ?h = "hd (py_sort_reverse f (xs @ [x]))"
  show ?case
  proof (cases "\<forall>y \<in> set xs. f y < f x")
    case True
    then have "?h = x" by (simp add: hd_py_sort_reverse_snoc)
    with True have "xs @ [x] = xs @ ?h # [] \<and> (\<forall>d \<in> set xs. f d < f ?h) \<and> (\<forall>d \<in> set []. f d \<le> f ?h)"
      by simp
    then show ?thesis by blast
  next
    case False
    then obtain y where y: "y \<in> set xs" "f x \<le> f y" by (auto simp: not_less)
    then have ne: "xs \<noteq> []" by auto
    from False have h: "?h = hd (py_sort_reverse f xs)"
      by (subst hd_py_sort_reverse_snoc) (simp only: if_False)
    from snoc.IH [OF ne] obtain pre post where
      pp: "xs = pre @ hd (py_sort_reverse f xs) # post"
        "\<forall>d \<in> set pre. f d < f (hd (py_sort_reverse f xs))"
        "\<forall>d \<in> set post. f d \<le> f (hd (py_sort_reverse f xs))" by blast
    have "f y \<le> f (hd (py_sort_reverse f xs))"
      using y(1) pp by (metis Un_iff insert_iff less_imp_le list.set(2) order_refl set_append)
    with y have "f x \<le> f ?h" using h by simp
    with pp h have "xs @ [x] = pre @ ?h # (post @ [x]) \<and> (\<forall>d \<in> set pre. f d < f ?h) \<and>
       (\<forall>d \<in> set (post @ [x]). f d \<le> f ?h)" by auto
    then show ?thesis by blast
  qed
qed

lemma walk_top: "walk obj [] [] = map candidate_of (qualifying_leaves obj)"
  by (simp add: walk_string_leaves qualifying_leaves_def)

lemma extract_none: "qualifying_leaves obj = [] \<Longrightarrow> extract_code_from_json obj = (None, None)"
  by (simp add: extract_code_from_json_def walk_top)

lemma extract_winner:
  assumes "qualifying_leaves obj \<noteq> []"
  shows "\<exists>pre w post. qualifying_leaves obj = pre @ w # post \<and>
           (\<forall>d \<in> set pre. leaf_score d < leaf_score w) \<and>
           (\<forall>d \<in> set post. leaf_score d \<le> leaf_score w) \<and>
           extract_code_from_json obj = (Some (py_strip (snd w)), Some (py_join ''.'' (fst w)))"
proof -
  let ?cs = "walk obj [] []"
  let ?h = "hd (py_sort_reverse fst ?cs)"
  from assms have ne: "?cs \<noteq> []" by (simp add: walk_top)
  from hd_py_sort_reverse [OF ne, of fst] obtain pre' post' where
    split: "?cs = pre' @ ?h # post'" and
    before: "\<forall>d \<in> set pre'. fst d < fst ?h" and
    after: "\<forall>d \<in> set post'. fst d \<le> fst ?h" by blast
  from split obtain pre w post where
    L: "qualifying_leaves obj = pre @ w # post" and
    pre: "map candidate_of pre = pre'" and w: "candidate_of w = ?h" and
    post: "map candidate_of post = post'"
    unfolding walk_top by (auto simp: map_eq_append_conv map_eq_Cons_conv)
  have sc: "fst (candidate_of d) = leaf_score d" for d
    by (simp add: candidate_of_def leaf_score_def)
  have 1: "\<forall>d \<in> set pre. leaf_score d < leaf_score w"
    using before pre w sc by (metis image_eqI set_map)
  have 2: "\<forall>d \<in> set post. leaf_score d \<le> leaf_score w"
    using after post w sc by (metis image_eqI set_map)
  have "extract_code_from_json obj = (Some (fst (snd ?h)), Some (py_join ''.'' (snd (snd ?h))))"
    using ne by (simp add: extract_code_from_json_def Let_def split: prod.splits)
  also have "\<dots> = (Some (py_strip (snd w)), Some (py_join ''.'' (fst w)))"
    using w [symmetric] by (simp add: candidate_of_def)
  finally show ?thesis using L 1 2 by blast
qed

lemma sort_reverse_stable:
  "filter (\<lambda>c. f c = k) (py_sort_reverse f xs) = filter (\<lambda>c. f c = k) xs"
  by (simp add: py_sort_reverse_def rev_filter [symmetric] sort_key_stable)

lemma py_join_snoc:
  "py_join sep (ts @ [t]) = (if ts = [] then t else py_join sep ts @ sep @ t)"
  by (induction sep ts rule: py_join.induct) auto

section \<open>Claims on the extractor\<close>

text \<open>
  Claim C3. \<open>extract\<close> returns \<open>(none, none)\<close> exactly when the value has no string leaf
  whose trimmed length is at least 10; the candidates it considers are exactly the leaves of
  trimmed length at least 10, so every shorter leaf is discarded.
\<close>

theorem extract_none_iff_no_long_leaf:
  "(extract_code_from_json v = (None, None) \<longleftrightarrow>
      (\<forall>l \<in> set (string_leaves v []). length (py_strip (snd l)) < 10)) \<and>
   walk v [] [] =
     map candidate_of (filter (\<lambda>l. 10 \<le> length (py_strip (snd l))) (string_leaves v []))"
proof -
  have q: "qualifying_leaves v = filter (\<lambda>l. 10 \<le> length (py_strip (snd l))) (string_leaves v [])"
    by (simp add: qualifying_leaves_def qualifies_def)
  have e: "qualifying_leaves v = [] \<longleftrightarrow> (\<forall>l \<in> set (string_leaves v []). length (py_strip (snd l)) < 10)"
    unfolding q by (auto simp: filter_empty_conv not_le)
  have "extract_code_from_json v = (None, None) \<longleftrightarrow> qualifying_leaves v = []"
  proof
    assume n: "extract_code_from_json v = (None, None)"
    show "qualifying_leaves v = []"
    proof (rule ccontr)
      assume "qualifying_leaves v \<noteq> []"
      from extract_winner [OF this] n show False by auto
    qed
  qed (rule extract_none)
  with e q show ?thesis by (simp add: walk_top)
qed

theorem extract_none_iff_no_long_leaf_witness:
  "list_all (\<lambda>l. length (py_strip (snd l)) < 10)
     (string_leaves (JDict [(''a'', JStr ''  short  ''), (''b'', JList [JStr ''123456789'', JInt 5])]) []) \<and>
   extract_code_from_json (JDict [(''a'', JStr ''  short  ''), (''b'', JList [JStr ''123456789'', JInt 5])])
     = (None, None)"
proof -
  let ?v = "JDict [(''a'', JStr ''  short  ''), (''b'', JList [JStr ''123456789'', JInt 5])]"
  have h: "list_all (\<lambda>l. length (py_strip (snd l)) < 10) (string_leaves ?v [])"
    by code_simp
  then have "\<forall>l \<in> set (string_leaves ?v []). length (py_strip (snd l)) < 10"
    by (simp only: list_all_iff)
  with extract_none_iff_no_long_leaf [of ?v] h show ?thesis by blast
qed

text \<open>
  Claim C1. Every string leaf that survives the length filter becomes a candidate whose score
  is 10 times the number of newline characters of the trimmed string, plus 20 when
  \<open>CODE_TOKEN_RE\<close> finds a match in it and plus 0 otherwise; \<open>extract\<close> returns the trimmed
  text of a candidate of maximal score; and of exactly two qualifying leaves with the same
  match status and different newline counts, the one with more newlines is returned, whichever
  comes first.
\<close>

theorem extract_score_and_maximum:
  "walk obj [] [] =
     map (\<lambda>l. (10 * int (py_count_newline (py_strip (snd l))) +
                 (if CODE_TOKEN_RE_search (py_strip (snd l)) then 20 else 0),
               py_strip (snd l), fst l))
       (qualifying_leaves obj) \<and>
   (qualifying_leaves obj \<noteq> [] \<longrightarrow>
      (\<exists>w \<in> set (qualifying_leaves obj).
         fst (extract_code_from_json obj) = Some (py_strip (snd w)) \<and>
         (\<forall>d \<in> set (qualifying_leaves obj). leaf_score d \<le> leaf_score w))) \<and>
   (\<forall>a b. qualifying_leaves obj = [a, b] \<and>
      CODE_TOKEN_RE_search (py_strip (snd a)) = CODE_TOKEN_RE_search (py_strip (snd b)) \<and>
      py_count_newline (py_strip (snd a)) \<noteq> py_count_newline (py_strip (snd b)) \<longrightarrow>
      extract_code_from_json obj =
        (let w = (if py_count_newline (py_strip (snd a)) > py_count_newline (py_strip (snd b))
                  then a else b)
         in (Some (py_strip (snd w)), Some (py_join ''.'' (fst w)))))"
proof (intro conjI allI impI)
  show "walk obj [] [] =
     map (\<lambda>l. (10 * int (py_count_newline (py_strip (snd l))) +
                 (if CODE_TOKEN_RE_search (py_strip (snd l)) then 20 else 0),
               py_strip (snd l), fst l))
       (qualifying_leaves obj)"
    by (simp add: walk_top candidate_of_def score_of_def mult.commute)
next
  assume ne: "qualifying_leaves obj \<noteq> []"
  from extract_winner [OF ne] obtain pre w post where
    L: "qualifying_leaves obj = pre @ w # post" and
    1: "\<forall>d \<in> set pre. leaf_score d < leaf_score w" and
    2: "\<forall>d \<in> set post. leaf_score d \<le> leaf_score w" and
    e: "extract_code_from_json obj = (Some (py_strip (snd w)), Some (py_join ''.'' (fst w)))"
    by blast
  have "w \<in> set (qualifying_leaves obj)" using L by simp
  moreover have "\<forall>d \<in> set (qualifying_leaves obj). leaf_score d \<le> leaf_score w"
    using L 1 2 by auto
  ultimately show "\<exists>w \<in> set (qualifying_leaves obj).
         fst (extract_code_from_json obj) = Some (py_strip (snd w)) \<and>
         (\<forall>d \<in> set (qualifying_leaves obj). leaf_score d \<le> leaf_score w)"
    using e by auto
next
  fix a b
  assume h: "qualifying_leaves obj = [a, b] \<and>
      CODE_TOKEN_RE_search (py_strip (snd a)) = CODE_TOKEN_RE_search (py_strip (snd b)) \<and>
      py_count_newline (py_strip (snd a)) \<noteq> py_count_newline (py_strip (snd b))"
  then have ne: "qualifying_leaves obj \<noteq> []" by simp
  from extract_winner [OF ne] obtain pre w post where
    L: "qualifying_leaves obj = pre @ w # post" and
    1: "\<forall>d \<in> set pre. leaf_score d < leaf_score w" and
    2: "\<forall>d \<in> set post. leaf_score d \<le> leaf_score w" and
    e: "extract_code_from_json obj = (Some (py_strip (snd w)), Some (py_join ''.'' (fst w)))"
    by blast
  from L h have cases: "(pre = [] \<and> w = a \<and> post = [b]) \<or> (pre = [a] \<and> w = b \<and> post = [])"
    by (auto simp: Cons_eq_append_conv append_eq_Cons_conv)
  have sc: "leaf_score a < leaf_score b \<longleftrightarrow>
      py_count_newline (py_strip (snd a)) < py_count_newline (py_strip (snd b))"
    using h by (auto simp: leaf_score_def score_of_def)
  have "w = (if py_count_newline (py_strip (snd a)) > py_count_newline (py_strip (snd b)) then a else b)"
    using cases 1 2 sc h by (auto simp: not_less)
  with e show "extract_code_from_json obj =
        (let w = (if py_count_newline (py_strip (snd a)) > py_count_newline (py_strip (snd b))
                  then a else b)
         in (Some (py_strip (snd w)), Some (py_join ''.'' (fst w))))"
    by (simp add: Let_def)
qed

theorem extract_score_and_maximum_witness:
  "qualifying_leaves (JDict [(''a'', JStr ''just one line here''),
                            (''b'', JList [JStr ''first line\<newline>second line''])]) =
     [([''a''], ''just one line here''), ([''b'', ''[0]''], ''first line\<newline>second line'')] \<and>
   CODE_TOKEN_RE_search (py_strip ''just one line here'') =
     CODE_TOKEN_RE_search (py_strip ''first line\<newline>second line'') \<and>
   py_count_newline (py_strip ''just one line here'') \<noteq>
     py_count_newline (py_strip ''first line\<newline>second line'') \<and>
   extract_code_from_json (JDict [(''a'', JStr ''just one line here''),
                                  (''b'', JList [JStr ''first line\<newline>second line''])]) =
     (Some ''first line\<newline>second line'', Some ''b.[0]'')"
proof -
  let ?obj = "JDict [(''a'', JStr ''just one line here''),
                     (''b'', JList [JStr ''first line\<newline>second line''])]"
  let ?a = "([''a''], ''just one line here'')"
  let ?b = "([''b'', ''[0]''], ''first line\<newline>second line'')"
  have q: "qualifying_leaves ?obj = [?a, ?b]" by code_simp
  have t: "CODE_TOKEN_RE_search (py_strip (snd ?a)) = CODE_TOKEN_RE_search (py_strip (snd ?b))"
    by code_simp
  have na: "py_count_newline (py_strip (snd ?a)) = 0" by code_simp
  have nb: "py_count_newline (py_strip (snd ?b)) = 1" by code_simp
  have sb: "py_strip (snd ?b) = ''first line\<newline>second line''" by code_simp
  have jb: "py_join ''.'' (fst ?b) = ''b.[0]''" by code_simp
  from extract_score_and_maximum [of ?obj] have
    "\<forall>a b. qualifying_leaves ?obj = [a, b] \<and>
      CODE_TOKEN_RE_search (py_strip (snd a)) = CODE_TOKEN_RE_search (py_strip (snd b)) \<and>
      py_count_newline (py_strip (snd a)) \<noteq> py_count_newline (py_strip (snd b)) \<longrightarrow>
      extract_code_from_json ?obj =
        (let w = (if py_count_newline (py_strip (snd a)) > py_count_newline (py_strip (snd b))
                  then a else b)
         in (Some (py_strip (snd w)), Some (py_join ''.'' (fst w))))"
    by (elim conjE)
  from this [rule_format, of ?a ?b] q t na nb
  have "extract_code_from_json ?obj = (Some (py_strip (snd ?b)), Some (py_join ''.'' (fst ?b)))"
    by (simp only: Let_def) simp
  with q t na nb sb jb show ?thesis by simp
qed

text \<open>
  Claim C2. Among the candidates of maximal score \<open>extract\<close> returns the one met first in the
  depth-first pre-order traversal: every qualifying leaf before the winner has a strictly
  smaller score, every one after it has at most the winner's score. The candidates are the
  qualifying leaves in traversal order, and the sort keeps candidates of equal score in that
  order.
\<close>

theorem extract_first_of_equal_scores:
  "(qualifying_leaves obj \<noteq> [] \<longrightarrow>
      (\<exists>pre w post. qualifying_leaves obj = pre @ w # post \<and>
         (\<forall>d \<in> set pre. leaf_score d < leaf_score w) \<and>
         (\<forall>d \<in> set post. leaf_score d \<le> leaf_score w) \<and>
         extract_code_from_json obj = (Some (py_strip (snd w)), Some (py_join ''.'' (fst w))))) \<and>
   walk obj [] [] = map candidate_of (qualifying_leaves obj) \<and>
   (\<forall>k. filter (\<lambda>c. fst c = k) (py_sort_reverse fst (walk obj [] [])) =
         filter (\<lambda>c. fst c = k) (walk obj [] []))"
  using extract_winner [of obj] walk_top [of obj] sort_reverse_stable [of fst _ "walk obj [] []"]
  by blast

theorem extract_first_of_equal_scores_witness:
  "qualifying_leaves (JDict [(''data'', JList [JStr ''0123456789'', JStr ''abcdefghijkl''])]) =
     [([''data'', ''[0]''], ''0123456789''), ([''data'', ''[1]''], ''abcdefghijkl'')] \<and>
   leaf_score ([''data'', ''[0]''], ''0123456789'') = leaf_score ([''data'', ''[1]''], ''abcdefghijkl'') \<and>
   extract_code_from_json (JDict [(''data'', JList [JStr ''0123456789'', JStr ''abcdefghijkl''])]) =
     (Some ''0123456789'', Some ''data.[0]'')"
proof -
  let ?obj = "JDict [(''data'', JList [JStr ''0123456789'', JStr ''abcdefghijkl''])]"
  let ?a = "([''data'', ''[0]''], ''0123456789'')"
  let ?b = "([''data'', ''[1]''], ''abcdefghijkl'')"
  have q: "qualifying_leaves ?obj = [?a, ?b]" by code_simp
  have s: "leaf_score ?a = leaf_score ?b" by code_simp
  have sa: "py_strip (snd ?a) = ''0123456789''" by code_simp
  have ja: "py_join ''.'' (fst ?a) = ''data.[0]''" by code_simp
  from q have "qualifying_leaves ?obj \<noteq> []" by simp
  with extract_first_of_equal_scores [of ?obj] obtain pre w post where
    L: "qualifying_leaves ?obj = pre @ w # post" and
    1: "\<forall>d \<in> set pre. leaf_score d < leaf_score w" and
    e: "extract_code_from_json ?obj = (Some (py_strip (snd w)), Some (py_join ''.'' (fst w)))"
    by blast
  from L q have "(pre = [] \<and> w = ?a) \<or> (pre = [?a] \<and> w = ?b)"
    by (auto simp: Cons_eq_append_conv append_eq_Cons_conv)
  with 1 s have "w = ?a" by auto
  with e sa ja q s show ?thesis by simp
qed

text \<open>
  Claim C4 says that an index token is joined to the token before it without a separator.
  For the only qualifying leaf of \<open>{"data": ["def f(x): pass"]}\<close> the rendered path is
  \<open>data.[0]\<close>: a dot stands between \<open>data\<close> and the bracket.
\<close>

theorem path_index_token_counterexample:
  "extract_code_from_json (JDict [(''data'', JList [JStr ''def f(x): pass''])]) =
     (Some ''def f(x): pass'', Some ''data.[0]'') \<and>
   ''data.[0]'' \<noteq> ''data'' @ index_token 0"
  by code_simp

text \<open>
  Claim C4, amended. The rendered path of the winning candidate is its path tokens (a mapping
  key as the key itself, a sequence index as the token \<open>[i]\<close>) joined with \<open>.\<close> uniformly:
  every token but the first, index tokens included, follows a dot.
\<close>

theorem path_joined_uniformly:
  "(qualifying_leaves obj \<noteq> [] \<longrightarrow>
      (\<exists>w \<in> set (string_leaves obj []).
         extract_code_from_json obj = (Some (py_strip (snd w)), Some (py_join ''.'' (fst w))))) \<and>
   (\<forall>ts t. py_join ''.'' (ts @ [t]) = (if ts = [] then t else py_join ''.'' ts @ ''.'' @ t))"
proof (intro conjI impI allI)
  assume ne: "qualifying_leaves obj \<noteq> []"
  from extract_winner [OF ne] obtain pre w post where
    L: "qualifying_leaves obj = pre @ w # post" and
    e: "extract_code_from_json obj = (Some (py_strip (snd w)), Some (py_join ''.'' (fst w)))"
    by blast
  from L have "w \<in> set (qualifying_leaves obj)" by simp
  then have "w \<in> set (string_leaves obj [])" by (simp add: qualifying_leaves_def)
  with e show "\<exists>w \<in> set (string_leaves obj []).
         extract_code_from_json obj = (Some (py_strip (snd w)), Some (py_join ''.'' (fst w)))"
    by blast
next
  fix ts t
  show "py_join ''.'' (ts @ [t]) = (if ts = [] then t else py_join ''.'' ts @ ''.'' @ t)"
    by (rule py_join_snoc)
qed

theorem path_joined_uniformly_witness:
  "qualifying_leaves (JDict [(''result'', JDict [(''answer'', JStr ''def f(x):\<newline>    return x+1'')])]) =
     [([''result'', ''answer''], ''def f(x):\<newline>    return x+1'')] \<and>
   string_leaves (JDict [(''result'', JDict [(''answer'', JStr ''def f(x):\<newline>    return x+1'')])]) [] =
     [([''result'', ''answer''], ''def f(x):\<newline>    return x+1'')] \<and>
   extract_code_from_json (JDict [(''result'', JDict [(''answer'', JStr ''def f(x):\<newline>    return x+1'')])]) =
     (Some ''def f(x):\<newline>    return x+1'', Some ''result.answer'')"
proof -
  let ?obj = "JDict [(''result'', JDict [(''answer'', JStr ''def f(x):\<newline>    return x+1'')])]"
  let ?a = "([''result'', ''answer''], ''def f(x):\<newline>    return x+1'')"
  have q: "qualifying_leaves ?obj = [?a]" by code_simp
  have l: "string_leaves ?obj [] = [?a]" by code_simp
  have sa: "py_strip (snd ?a) = ''def f(x):\<newline>    return x+1''" by code_simp
  have ja: "py_join ''.'' (fst ?a) = ''result.answer''" by code_simp
  from q have "qualifying_leaves ?obj \<noteq> []" by simp
  with path_joined_uniformly [of ?obj] obtain w where
    "w \<in> set (string_leaves ?obj [])"
    "extract_code_from_json ?obj = (Some (py_strip (snd w)), Some (py_join ''.'' (fst w)))"
    by blast
  with l sa ja q show ?thesis by simp
qed

section \<open>Lemmas on the request handler\<close>

lemma explain_json_route_dict:
  "items \<noteq> [] \<Longrightarrow> explain_json_route generate (JDict items) =
     resolve_and_respond generate items (request_payload items) (request_code_path items)"
  by (simp add: explain_json_route_def truthy_def)

lemma respond_Success:
  "respond generate items r = (Success resp, calls) \<Longrightarrow>
     \<exists>code. fst r = Some code \<and> code \<noteq> [] \<and> extracted_path resp = snd r \<and>
       extracted_preview resp = preview_of code \<and> calls = [build_prompt (request_language items) code]"
  by (auto simp: respond_def Let_def split: option.splits if_splits)

lemma explain_json_route_Success:
  assumes "explain_json_route generate body = (Success resp, calls)"
  shows "\<exists>items code. body = JDict items \<and>
           resolve (request_payload items) (request_code_path items) = Inr (Some code, extracted_path resp) \<and>
           code \<noteq> [] \<and> extracted_preview resp = preview_of code"
proof -
  from assms obtain items where b: "body = JDict items" and t: "truthy body"
    by (auto simp: explain_json_route_def split: if_splits json.splits)
  with assms have "resolve_and_respond generate items (request_payload items) (request_code_path items)
      = (Success resp, calls)"
    by (simp add: explain_json_route_def)
  then obtain r where r: "resolve (request_payload items) (request_code_path items) = Inr r"
    and s: "respond generate items r = (Success resp, calls)"
    by (auto simp: resolve_and_respond_def split: sum.splits)
  from respond_Success [OF s] r b show ?thesis
    by (cases r) auto
qed

lemma example_2500:
  "explain_json_route (\<lambda>p. Some ''ok'') (JDict [(''code'', JStr (replicate 2500 (CHR ''x'')))]) =
     (Success \<lparr>extracted_path = Some ''code'',
               extracted_preview = replicate 2000 (CHR ''x'') @ ''\<newline>... (truncated)'',
               language = JStr ''unspecified'', explanation = ''ok''\<rparr>,
      [build_prompt (JStr ''unspecified'') (replicate 2500 (CHR ''x''))])"
  by (simp add: explain_json_route_def truthy_def resolve_and_respond_def resolve_def
      request_payload_def request_code_path_def request_language_def dict_get_def py_or_def
      try_explicit_path_def try_common_fields_def try_auto_extract_def str_truthy_def
      py_get_def normalize_code_def respond_def preview_of_def Let_def)

lemma r2500: "resolve (request_payload [(''code'', JStr (replicate 2500 (CHR ''x'')))])
           (request_code_path [(''code'', JStr (replicate 2500 (CHR ''x'')))]) =
     Inr (Some (replicate 2500 (CHR ''x'')), Some ''code'')"
    by (simp add: resolve_def truthy_def request_payload_def request_code_path_def dict_get_def
      py_or_def try_explicit_path_def try_common_fields_def try_auto_extract_def str_truthy_def
      py_get_def normalize_code_def)

lemma respond_no_code:
  "\<not> str_truthy (fst r) \<Longrightarrow> respond generate items r = (Failure 400 ''No code found'', [])"
  by (auto simp: respond_def str_truthy_def split: option.splits)

lemma respond_code:
  "str_truthy (fst r) \<Longrightarrow> respond generate items r \<noteq> (Failure 400 ''No code found'', calls)"
  by (auto simp: respond_def str_truthy_def Let_def split: option.splits)

lemma respond_fst_snd:
  "str_truthy c \<Longrightarrow> respond generate items (c, u) =
     (let code = (case c of Some s \<Rightarrow> s | None \<Rightarrow> []);
          lang = request_language items; prompt = build_prompt lang code
      in case generate prompt of
           None \<Rightarrow> (Raised ServiceError, [prompt])
         | Some text \<Rightarrow>
             (Success \<lparr>extracted_path = u, extracted_preview = preview_of code,
                       language = lang, explanation = text\<rparr>, [prompt]))"
  by (auto simp: respond_def str_truthy_def Let_def split: option.splits)

lemma common_loop_cases:
  "(\<exists>e. \<forall>r. common_loop L p r = Inl e) \<or>
   (\<exists>c k. truthy c \<and> (\<forall>r. common_loop L p r = Inr (normalize_code c, Some k))) \<or>
   (\<forall>r. common_loop L p r = Inr r)"
proof (induction L)
  case Nil
  then show ?case by simp
next
  case (Cons a L)
  show ?case
  proof (cases "py_get p a")
    case (Inl e)
    then show ?thesis by auto
  next
    case (Inr cur)
    show ?thesis
    proof (cases "truthy cur")
      case True
      with Inr have "\<forall>r. common_loop (a # L) p r = Inr (normalize_code cur, Some a)" by simp
      with True show ?thesis by blast
    next
      case False
      with Inr have "\<forall>r. common_loop (a # L) p r = common_loop L p r" by simp
      with Cons.IH show ?thesis by simp
    qed
  qed
qed

lemma auto_extract_respond:
  "\<not> str_truthy c \<Longrightarrow> \<not> str_truthy c' \<Longrightarrow>
     respond generate items (try_auto_extract payload (c, u)) =
     respond generate items (try_auto_extract payload (c', u'))"
proof -
  assume a: "\<not> str_truthy c" "\<not> str_truthy c'"
  obtain cv ap where e: "extract_code_from_json payload = (cv, ap)" by (cases "extract_code_from_json payload")
  show ?thesis
  proof (cases "str_truthy cv")
    case True
    with a e show ?thesis by (simp add: try_auto_extract_def)
  next
    case False
    with a e show ?thesis by (simp add: try_auto_extract_def respond_no_code)
  qed
qed

lemma explicit_fallthrough:
  assumes "try_explicit_path payload code_path = Inr (c, u)" "\<not> str_truthy c"
  shows "resolve_and_respond generate items payload code_path =
         resolve_and_respond generate items payload JNull"
proof -
  have n: "try_explicit_path payload JNull = Inr (None, None)"
    by (simp add: try_explicit_path_def truthy_def)
  have f: "\<not> str_truthy None" by (simp add: str_truthy_def)
  let ?L = "[''code'', ''source'', ''snippet'', ''text'']"
  from common_loop_cases [of ?L payload] show ?thesis
  proof (elim disjE exE conjE)
    fix e assume "\<forall>r. common_loop ?L payload r = Inl e"
    then show ?thesis using assms n f
      by (simp add: resolve_and_respond_def resolve_def try_common_fields_def)
  next
    fix cur k assume "\<forall>r. common_loop ?L payload r = Inr (normalize_code cur, Some k)"
    then show ?thesis using assms n f
      by (simp add: resolve_and_respond_def resolve_def try_common_fields_def)
  next
    assume "\<forall>r. common_loop ?L payload r = Inr r"
    then show ?thesis using assms n f auto_extract_respond [of c None generate items payload u None]
      by (simp add: resolve_and_respond_def resolve_def try_common_fields_def)
  qed
qed

lemma try_explicit_path_str:
  "cp \<noteq> [] \<Longrightarrow> try_explicit_path payload (JStr cp) =
     (case walk_path (py_split (CHR ''.'') cp) payload of
        Inl e \<Rightarrow> Inr (None, None) | Inr cur \<Rightarrow> Inr (normalize_code cur, Some cp))"
  by (simp add: try_explicit_path_def truthy_def)

lemma common_loop_find:
  "common_loop L (JDict flds) r =
     (case find (\<lambda>k. truthy (dict_get flds k)) L of
        None \<Rightarrow> Inr r | Some k \<Rightarrow> Inr (normalize_code (dict_get flds k), Some k))"
  by (induction L) (auto simp: py_get_def)

lemma explain_json_route_falsy:
  "\<not> truthy body \<Longrightarrow> explain_json_route generate body = (Failure 400 ''Invalid request'', [])"
  by (simp add: explain_json_route_def)

lemma respond_Failure:
  "respond generate items r = (Failure status msg, calls) \<Longrightarrow>
     status = 400 \<and> msg = ''No code found'' \<and> calls = [] \<and> \<not> str_truthy (fst r)"
  by (auto simp: respond_def str_truthy_def Let_def split: option.splits if_splits)

lemma explain_json_route_Failure:
  "explain_json_route generate body = (Failure status msg, calls) \<Longrightarrow> calls = []"
  by (auto simp: explain_json_route_def resolve_and_respond_def
      split: if_splits json.splits sum.splits dest: respond_Failure)

lemma explain_json_route_invalid:
  "explain_json_route generate body = (Failure status ''Invalid request'', calls) \<Longrightarrow> \<not> truthy body"
proof (rule ccontr)
  assume h: "explain_json_route generate body = (Failure status ''Invalid request'', calls)"
    and "\<not> \<not> truthy body"
  then have t: "truthy body" by simp
  show False
  proof (cases body)
    case (JDict items)
    with h t have "resolve_and_respond generate items (request_payload items) (request_code_path items) =
        (Failure status ''Invalid request'', calls)"
      by (simp add: explain_json_route_def)
    then obtain r where "respond generate items r = (Failure status ''Invalid request'', calls)"
      by (auto simp: resolve_and_respond_def split: sum.splits)
    from respond_Failure [OF this] show False by simp
  qed (use h t in \<open>simp_all add: explain_json_route_def\<close>)
qed

lemma resolve_no_code_iff:
  assumes "resolve payload code_path = Inr r"
  shows "\<not> str_truthy (fst r) \<longleftrightarrow>
     (\<exists>r1 r2. try_explicit_path payload code_path = Inr r1 \<and> \<not> str_truthy (fst r1) \<and>
        try_common_fields payload r1 = Inr r2 \<and> \<not> str_truthy (fst r2) \<and>
        \<not> str_truthy (fst (extract_code_from_json payload)))"
proof -
  from assms obtain r1 r2 where
    1: "try_explicit_path payload code_path = Inr r1" and
    2: "try_common_fields payload r1 = Inr r2" and
    3: "r = try_auto_extract payload r2"
    by (auto simp: resolve_def split: sum.splits)
  have a: "str_truthy (fst r1) \<Longrightarrow> r2 = r1" using 2 by (simp add: try_common_fields_def)
  have b: "str_truthy (fst r2) \<Longrightarrow> r = r2" using 3 by (simp add: try_auto_extract_def)
  have c: "\<not> str_truthy (fst r2) \<Longrightarrow> fst r = fst (extract_code_from_json payload)"
    using 3 by (simp add: try_auto_extract_def split: prod.splits)
  show ?thesis
  proof
    assume n: "\<not> str_truthy (fst r)"
    have n2: "\<not> str_truthy (fst r2)" using b n by auto
    have n1: "\<not> str_truthy (fst r1)" using a n2 by auto
    have "\<not> str_truthy (fst (extract_code_from_json payload))" using c n2 n by simp
    with 1 2 n1 n2 show "\<exists>r1 r2. try_explicit_path payload code_path = Inr r1 \<and>
        \<not> str_truthy (fst r1) \<and> try_common_fields payload r1 = Inr r2 \<and>
        \<not> str_truthy (fst r2) \<and> \<not> str_truthy (fst (extract_code_from_json payload))"
      by blast
  next
    assume "\<exists>r1 r2. try_explicit_path payload code_path = Inr r1 \<and>
        \<not> str_truthy (fst r1) \<and> try_common_fields payload r1 = Inr r2 \<and>
        \<not> str_truthy (fst r2) \<and> \<not> str_truthy (fst (extract_code_from_json payload))"
    then obtain r1' r2' where h: "try_explicit_path payload code_path = Inr r1'"
      "try_common_fields payload r1' = Inr r2'" "\<not> str_truthy (fst r2')"
      "\<not> str_truthy (fst (extract_code_from_json payload))" by blast
    from h(1) 1 have "r1' = r1" by simp
    with h(2) 2 have "r2' = r2" by simp
    with h(3) c h(4) show "\<not> str_truthy (fst r)" by simp
  qed
qed

section \<open>Claims on the request handler\<close>

text \<open>
  Claim C5. The three strategies run in strict priority order. A \<open>code_path\<close> whose walk
  reaches a value that normalizes to a non-empty string wins, whatever the \<open>code\<close> field holds.
  When the explicit path yields nothing, the keys \<open>code\<close>, \<open>source\<close>, \<open>snippet\<close>, \<open>text\<close> of
  a mapping payload are read in that order and the first truthy value is taken (normalized);
  when the explicit path did yield a string they are not consulted. The extractor's result is
  used only when both earlier strategies left no usable string.
\<close>

theorem resolution_priority:
  "(cp \<noteq> [] \<and> walk_path (py_split (CHR ''.'') cp) payload = Inr cur \<and>
      normalize_code cur = Some code \<and> code \<noteq> [] \<longrightarrow>
      resolve payload (JStr cp) = Inr (Some code, Some cp)) \<and>
   (try_explicit_path payload code_path = Inr r1 \<and> \<not> str_truthy (fst r1) \<and>
      payload = JDict flds \<longrightarrow>
      try_common_fields payload r1 =
        (case find (\<lambda>k. truthy (dict_get flds k)) [''code'', ''source'', ''snippet'', ''text''] of
           None \<Rightarrow> Inr r1
         | Some k \<Rightarrow> Inr (normalize_code (dict_get flds k), Some k))) \<and>
   (str_truthy (fst r1) \<longrightarrow> try_common_fields payload r1 = Inr r1) \<and>
   (try_explicit_path payload code_path = Inr r1 \<and> try_common_fields payload r1 = Inr r2 \<longrightarrow>
      resolve payload code_path =
        Inr (if str_truthy (fst r2) then r2
             else (fst (extract_code_from_json payload),
                   if str_truthy (fst (extract_code_from_json payload))
                   then snd (extract_code_from_json payload) else snd r2)))"
proof (intro conjI impI)
  assume h: "cp \<noteq> [] \<and> walk_path (py_split (CHR ''.'') cp) payload = Inr cur \<and>
      normalize_code cur = Some code \<and> code \<noteq> []"
  then have "try_explicit_path payload (JStr cp) = Inr (Some code, Some cp)"
    by (simp add: try_explicit_path_str)
  moreover have "str_truthy (Some code)" using h by (simp add: str_truthy_def)
  ultimately show "resolve payload (JStr cp) = Inr (Some code, Some cp)"
    by (simp add: resolve_def try_common_fields_def try_auto_extract_def)
next
  assume "try_explicit_path payload code_path = Inr r1 \<and> \<not> str_truthy (fst r1) \<and> payload = JDict flds"
  then show "try_common_fields payload r1 =
        (case find (\<lambda>k. truthy (dict_get flds k)) [''code'', ''source'', ''snippet'', ''text''] of
           None \<Rightarrow> Inr r1
         | Some k \<Rightarrow> Inr (normalize_code (dict_get flds k), Some k))"
    by (simp add: try_common_fields_def common_loop_find del: find.simps)
next
  assume "str_truthy (fst r1)"
  then show "try_common_fields payload r1 = Inr r1" by (simp add: try_common_fields_def)
next
  assume "try_explicit_path payload code_path = Inr r1 \<and> try_common_fields payload r1 = Inr r2"
  then show "resolve payload code_path =
        Inr (if str_truthy (fst r2) then r2
             else (fst (extract_code_from_json payload),
                   if str_truthy (fst (extract_code_from_json payload))
                   then snd (extract_code_from_json payload) else snd r2))"
    by (auto simp: resolve_def try_auto_extract_def split: prod.splits)
qed

theorem resolution_priority_witness:
  "walk_path (py_split (CHR ''.'') ''a.[0]'')
     (JDict [(''code'', JStr ''print(1)''), (''a'', JList [JStr ''zzz''])]) = Inr (JStr ''zzz'') \<and>
   normalize_code (JStr ''zzz'') = Some ''zzz'' \<and>
   resolve (JDict [(''code'', JStr ''print(1)''), (''a'', JList [JStr ''zzz''])]) (JStr ''a.[0]'') =
     Inr (Some ''zzz'', Some ''a.[0]'')"
proof -
  let ?p = "JDict [(''code'', JStr ''print(1)''), (''a'', JList [JStr ''zzz''])]"
  have w: "walk_path (py_split (CHR ''.'') ''a.[0]'') ?p = Inr (JStr ''zzz'')" by code_simp
  have n: "normalize_code (JStr ''zzz'') = Some ''zzz''" by (simp add: normalize_code_def)
  from resolution_priority [of "''a.[0]''" ?p "JStr ''zzz''" "''zzz''"] w n
  have "resolve ?p (JStr ''a.[0]'') = Inr (Some ''zzz'', Some ''a.[0]'')" by simp
  with w n show ?thesis by simp
qed



text \<open>
  Claim C9. In every success response the preview is the resolved code when it has at most
  2000 characters, and its first 2000 characters followed by the truncation marker otherwise;
  so 2500 characters give 2000 characters and the marker, and 500 characters come back whole.
\<close>

theorem preview_truncated_at_2000:
  assumes "explain_json_route generate body = (Success resp, calls)"
  shows "\<exists>items code. body = JDict items \<and>
           resolve (request_payload items) (request_code_path items) = Inr (Some code, extracted_path resp) \<and>
           extracted_preview resp =
             (if length code \<le> 2000 then code
              else take 2000 code @ ''\<newline>... (truncated)'') \<and>
           (length code = 2500 \<longrightarrow>
              length (extracted_preview resp) = 2000 + length ''\<newline>... (truncated)'' \<and>
              take 2000 (extracted_preview resp) = take 2000 code \<and>
              drop 2000 (extracted_preview resp) = ''\<newline>... (truncated)'') \<and>
           (length code = 500 \<longrightarrow> extracted_preview resp = code)"
proof -
  from explain_json_route_Success [OF assms] obtain items code where
    h: "body = JDict items"
       "resolve (request_payload items) (request_code_path items) = Inr (Some code, extracted_path resp)"
       "extracted_preview resp = preview_of code" by blast
  have "preview_of code = (if length code \<le> 2000 then code else take 2000 code @ ''\<newline>... (truncated)'')"
    by (simp add: preview_of_def)
  moreover have "length code = 2500 \<longrightarrow>
              length (preview_of code) = 2000 + length ''\<newline>... (truncated)'' \<and>
              take 2000 (preview_of code) = take 2000 code \<and>
              drop 2000 (preview_of code) = ''\<newline>... (truncated)''"
    by (simp add: preview_of_def)
  moreover have "length code = 500 \<longrightarrow> preview_of code = code"
    by (simp add: preview_of_def)
  ultimately show ?thesis using h by auto
qed

theorem preview_truncated_at_2000_witness:
  "explain_json_route (\<lambda>p. Some ''ok'') (JDict [(''code'', JStr (replicate 2500 (CHR ''x'')))]) =
     (Success \<lparr>extracted_path = Some ''code'',
               extracted_preview = replicate 2000 (CHR ''x'') @ ''\<newline>... (truncated)'',
               language = JStr ''unspecified'', explanation = ''ok''\<rparr>,
      [build_prompt (JStr ''unspecified'') (replicate 2500 (CHR ''x''))]) \<and>
   resolve (request_payload [(''code'', JStr (replicate 2500 (CHR ''x'')))])
           (request_code_path [(''code'', JStr (replicate 2500 (CHR ''x'')))]) =
     Inr (Some (replicate 2500 (CHR ''x'')), Some ''code'') \<and>
   length (replicate 2500 (CHR ''x'')) = 2500 \<and>
   length (replicate 2000 (CHR ''x'') @ ''\<newline>... (truncated)'') = 2016 \<and>
   take 2000 (replicate 2000 (CHR ''x'') @ ''\<newline>... (truncated)'') =
     take 2000 (replicate 2500 (CHR ''x''))"
proof -
  let ?items = "[(''code'', JStr (replicate 2500 (CHR ''x'')))]"
  let ?prev = "replicate 2000 (CHR ''x'') @ ''\<newline>... (truncated)''"
  note h = example_2500
  note r = r2500
  from preview_truncated_at_2000 [OF h] obtain items where
    "\<exists>code. JDict ?items = JDict items \<and>
       resolve (request_payload items) (request_code_path items) =
         Inr (Some code, extracted_path \<lparr>extracted_path = Some ''code'', extracted_preview = ?prev,
               language = JStr ''unspecified'', explanation = ''ok''\<rparr>) \<and>
       extracted_preview \<lparr>extracted_path = Some ''code'', extracted_preview = ?prev,
               language = JStr ''unspecified'', explanation = ''ok''\<rparr> =
         (if length code \<le> 2000 then code else take 2000 code @ ''\<newline>... (truncated)'') \<and>
       (length code = 2500 \<longrightarrow>
          length (extracted_preview \<lparr>extracted_path = Some ''code'', extracted_preview = ?prev,
               language = JStr ''unspecified'', explanation = ''ok''\<rparr>) =
            2000 + length ''\<newline>... (truncated)'' \<and>
          take 2000 (extracted_preview \<lparr>extracted_path = Some ''code'', extracted_preview = ?prev,
               language = JStr ''unspecified'', explanation = ''ok''\<rparr>) = take 2000 code \<and>
          drop 2000 (extracted_preview \<lparr>extracted_path = Some ''code'', extracted_preview = ?prev,
               language = JStr ''unspecified'', explanation = ''ok''\<rparr>) = ''\<newline>... (truncated)'') \<and>
       (length code = 500 \<longrightarrow>
          extracted_preview \<lparr>extracted_path = Some ''code'', extracted_preview = ?prev,
               language = JStr ''unspecified'', explanation = ''ok''\<rparr> = code)" ..
  then obtain code where c:
    "JDict ?items = JDict items \<and>
       resolve (request_payload items) (request_code_path items) =
         Inr (Some code, extracted_path \<lparr>extracted_path = Some ''code'', extracted_preview = ?prev,
               language = JStr ''unspecified'', explanation = ''ok''\<rparr>) \<and>
       extracted_preview \<lparr>extracted_path = Some ''code'', extracted_preview = ?prev,
               language = JStr ''unspecified'', explanation = ''ok''\<rparr> =
         (if length code \<le> 2000 then code else take 2000 code @ ''\<newline>... (truncated)'') \<and>
       (length code = 2500 \<longrightarrow>
          length (extracted_preview \<lparr>extracted_path = Some ''code'', extracted_preview = ?prev,
               language = JStr ''unspecified'', explanation = ''ok''\<rparr>) =
            2000 + length ''\<newline>... (truncated)'' \<and>
          take 2000 (extracted_preview \<lparr>extracted_path = Some ''code'', extracted_preview = ?prev,
               language = JStr ''unspecified'', explanation = ''ok''\<rparr>) = take 2000 code \<and>
          drop 2000 (extracted_preview \<lparr>extracted_path = Some ''code'', extracted_preview = ?prev,
               language = JStr ''unspecified'', explanation = ''ok''\<rparr>) = ''\<newline>... (truncated)'') \<and>
       (length code = 500 \<longrightarrow>
          extracted_preview \<lparr>extracted_path = Some ''code'', extracted_preview = ?prev,
               language = JStr ''unspecified'', explanation = ''ok''\<rparr> = code)" ..
  from c have "items = ?items" by simp
  moreover from c have "resolve (request_payload items) (request_code_path items) =
      Inr (Some code, Some ''code'')" by simp
  ultimately have code: "code = replicate 2500 (CHR ''x'')" using r by simp
  then have l: "length code = 2500" by simp
  from c l have "length ?prev = 2000 + length ''\<newline>... (truncated)'' \<and>
      take 2000 ?prev = take 2000 code" by simp
  with code have "length ?prev = 2016 \<and> take 2000 ?prev = take 2000 (replicate 2500 (CHR ''x''))"
    by simp
  moreover have "length (replicate 2500 (CHR ''x'')) = 2500" by simp
  ultimately show ?thesis using h r by (intro conjI) (elim conjE, assumption)+
qed

text \<open>
  Claim C7 says that a boolean element of a sequence is dropped. \<open>isinstance(x, (str, int,
  float))\<close> holds of a \<open>bool\<close>, so \<open>["a", true, null, 1]\<close> normalizes to the three lines
  \<open>a\<close>, \<open>True\<close>, \<open>1\<close>.
\<close>

theorem normalize_keeps_booleans_counterexample:
  "normalize_code (JList [JStr ''a'', JBool True, JNull, JInt 1]) = Some ''a\<newline>True\<newline>1'' \<and>
   normalize_code (JList [JStr ''a'', JBool True, JNull, JInt 1]) \<noteq> Some ''a\<newline>1''"
  by code_simp

text \<open>
  Claim C7, amended. A string is used as it is; a sequence is joined with newlines over its
  string, number and boolean elements (each as \<open>str\<close> gives it), every other element (null,
  nested sequence, mapping) being dropped; null normalizes to \<open>None\<close>, which is no usable
  string: reached by the explicit path it leaves the handler as with no path, and a null
  common field is skipped; a boolean, number or mapping is coerced to its \<open>str\<close>.
\<close>

theorem normalize_code_cases:
  "normalize_code (JStr s) = Some s \<and>
   normalize_code (JList xs) =
     Some (py_join ''\<newline>'' (map py_str (filter is_str_int_float xs))) \<and>
   (is_str_int_float x \<longleftrightarrow>
      (\<exists>t. x = JStr t) \<or> (\<exists>n. x = JInt n) \<or> (\<exists>r. x = JFloat r) \<or> (\<exists>c. x = JBool c)) \<and>
   py_str (JStr s) = s \<and> py_str (JInt i) = str_int i \<and> py_str (JFloat f) = f \<and>
   py_str (JBool b) = (if b then ''True'' else ''False'') \<and>
   normalize_code JNull = None \<and> \<not> str_truthy (normalize_code JNull) \<and>
   (cp \<noteq> [] \<and> walk_path (py_split (CHR ''.'') cp) payload = Inr JNull \<longrightarrow>
      resolve_and_respond generate items payload (JStr cp) =
      resolve_and_respond generate items payload JNull) \<and>
   (py_get payload common = Inr JNull \<longrightarrow>
      common_loop (common # rest) payload res = common_loop rest payload res) \<and>
   normalize_code (JBool b) = Some (py_str (JBool b)) \<and>
   normalize_code (JInt i) = Some (py_str (JInt i)) \<and>
   normalize_code (JFloat f) = Some (py_str (JFloat f)) \<and>
   normalize_code (JDict d) = Some (py_str (JDict d))"
proof -
  have 1: "is_str_int_float x \<longleftrightarrow>
      (\<exists>t. x = JStr t) \<or> (\<exists>n. x = JInt n) \<or> (\<exists>r. x = JFloat r) \<or> (\<exists>c. x = JBool c)"
    by (cases x) (simp_all add: is_str_int_float_def)
  have 2: "cp \<noteq> [] \<and> walk_path (py_split (CHR ''.'') cp) payload = Inr JNull \<longrightarrow>
      resolve_and_respond generate items payload (JStr cp) =
      resolve_and_respond generate items payload JNull"
  proof
    assume h: "cp \<noteq> [] \<and> walk_path (py_split (CHR ''.'') cp) payload = Inr JNull"
    then have t: "try_explicit_path payload (JStr cp) = Inr (None, Some cp)"
      by (simp add: try_explicit_path_str normalize_code_def)
    have f: "\<not> str_truthy None" by (simp add: str_truthy_def)
    from explicit_fallthrough [OF t f]
    show "resolve_and_respond generate items payload (JStr cp) =
      resolve_and_respond generate items payload JNull" .
  qed
  have 3: "py_get payload common = Inr JNull \<longrightarrow>
      common_loop (common # rest) payload res = common_loop rest payload res"
    by (simp add: truthy_def)
  show ?thesis using 1 2 3
    by (simp add: normalize_code_def py_str_def str_truthy_def)
qed

theorem normalize_code_cases_witness:
  "walk_path (py_split (CHR ''.'') ''a'') (JDict [(''a'', JNull), (''code'', JStr ''print(1)'')]) = Inr JNull \<and>
   resolve_and_respond (\<lambda>p. Some ''ok'') [] (JDict [(''a'', JNull), (''code'', JStr ''print(1)'')]) (JStr ''a'') =
     (Success \<lparr>extracted_path = Some ''code'', extracted_preview = ''print(1)'',
               language = JStr ''unspecified'', explanation = ''ok''\<rparr>,
      [build_prompt (JStr ''unspecified'') ''print(1)'']) \<and>
   py_get (JDict [(''a'', JNull), (''code'', JStr ''print(1)'')]) ''a'' = Inr JNull \<and>
   common_loop [''a'', ''code''] (JDict [(''a'', JNull), (''code'', JStr ''print(1)'')]) (None, None) =
     Inr (Some ''print(1)'', Some ''code'')"
proof -
  let ?p = "JDict [(''a'', JNull), (''code'', JStr ''print(1)'')]"
  let ?g = "\<lambda>p :: string. Some ''ok''"
  have w: "walk_path (py_split (CHR ''.'') ''a'') ?p = Inr JNull" by code_simp
  have g: "py_get ?p ''a'' = Inr JNull" by code_simp
  have r: "resolve_and_respond ?g [] ?p JNull =
     (Success \<lparr>extracted_path = Some ''code'', extracted_preview = ''print(1)'',
               language = JStr ''unspecified'', explanation = ''ok''\<rparr>,
      [build_prompt (JStr ''unspecified'') ''print(1)''])"
    by (simp add: resolve_and_respond_def resolve_def truthy_def
      request_language_def dict_get_def py_or_def
      try_explicit_path_def try_common_fields_def try_auto_extract_def str_truthy_def
      py_get_def normalize_code_def respond_def preview_of_def Let_def)
  have c: "common_loop [''code''] ?p (None, None) = Inr (Some ''print(1)'', Some ''code'')"
    by (simp add: py_get_def dict_get_def truthy_def normalize_code_def)
  note n = normalize_code_cases [of _ _ _ _ _ _ "''a''" ?p ?g "[]" "''a''" "[''code'']" "(None, None)"]
  from n w have "resolve_and_respond ?g [] ?p (JStr ''a'') = resolve_and_respond ?g [] ?p JNull"
    by simp
  moreover from n g have "common_loop [''a'', ''code''] ?p (None, None) =
      common_loop [''code''] ?p (None, None)" by blast
  ultimately show ?thesis using w g r c by simp
qed

text \<open>
  Claim C8 says that resolution is attempted for the empty mapping. The guard \<open>if not body\<close>
  rejects it as an invalid request: an empty \<open>dict\<close> is falsy.
\<close>

theorem empty_mapping_rejected_counterexample:
  "truthy (JDict []) = False \<and>
   explain_json_route (\<lambda>p. Some ''ok'') (JDict []) = (Failure 400 ''Invalid request'', [])"
  by (simp add: explain_json_route_def truthy_def)

text \<open>
  Claim C8, amended. The handler answers \<open>Invalid request\<close> exactly when the body is falsy
  (no parseable JSON, null, or an empty value, the empty mapping included): every falsy body
  gets that answer with nothing sent to the service, and no truthy body gets it, whatever the
  status; for every non-empty mapping body resolution is attempted; \<open>No code found\<close> is the
  answer exactly when resolution completes with no usable string, that is when all three
  strategies yield none; and a failure response is never preceded by a generation call.
\<close>

theorem malformed_and_no_code:
  "((\<exists>st calls. explain_json_route generate body = (Failure st ''Invalid request'', calls)) \<longleftrightarrow>
      \<not> truthy body) \<and>
   (\<not> truthy body \<longrightarrow> explain_json_route generate body = (Failure 400 ''Invalid request'', [])) \<and>
   (truthy body \<longleftrightarrow>
      (case body of JNull \<Rightarrow> False | JBool b \<Rightarrow> b | JInt i \<Rightarrow> i \<noteq> 0
       | JFloat f \<Rightarrow> f \<noteq> ''0.0'' \<and> f \<noteq> ''-0.0'' | JStr s \<Rightarrow> s \<noteq> [] | JList xs \<Rightarrow> xs \<noteq> []
       | JDict d \<Rightarrow> d \<noteq> [])) \<and>
   (items \<noteq> [] \<longrightarrow>
      explain_json_route generate (JDict items) =
        resolve_and_respond generate items (request_payload items) (request_code_path items)) \<and>
   (items \<noteq> [] \<longrightarrow>
      ((\<exists>calls. explain_json_route generate (JDict items) = (Failure 400 ''No code found'', calls)) \<longleftrightarrow>
       (\<exists>r. resolve (request_payload items) (request_code_path items) = Inr r \<and>
            \<not> str_truthy (fst r)))) \<and>
   (resolve payload code_path = Inr res \<longrightarrow>
      (\<not> str_truthy (fst res) \<longleftrightarrow>
         (\<exists>r1 r2. try_explicit_path payload code_path = Inr r1 \<and> \<not> str_truthy (fst r1) \<and>
            try_common_fields payload r1 = Inr r2 \<and> \<not> str_truthy (fst r2) \<and>
            \<not> str_truthy (fst (extract_code_from_json payload))))) \<and>
   (explain_json_route generate body = (Failure status msg, calls) \<longrightarrow> calls = [])"
proof (intro conjI impI)
  show "(\<exists>st calls. explain_json_route generate body = (Failure st ''Invalid request'', calls)) \<longleftrightarrow>
      \<not> truthy body"
  proof
    assume "\<exists>st calls. explain_json_route generate body = (Failure st ''Invalid request'', calls)"
    then obtain st calls where
      "explain_json_route generate body = (Failure st ''Invalid request'', calls)" by blast
    then show "\<not> truthy body" by (rule explain_json_route_invalid)
  next
    assume "\<not> truthy body"
    then have "explain_json_route generate body = (Failure 400 ''Invalid request'', [])"
      by (rule explain_json_route_falsy)
    then show "\<exists>st calls. explain_json_route generate body = (Failure st ''Invalid request'', calls)"
      by blast
  qed
next
  assume "\<not> truthy body"
  then show "explain_json_route generate body = (Failure 400 ''Invalid request'', [])"
    by (rule explain_json_route_falsy)
next
  show "truthy body \<longleftrightarrow>
      (case body of JNull \<Rightarrow> False | JBool b \<Rightarrow> b | JInt i \<Rightarrow> i \<noteq> 0
       | JFloat f \<Rightarrow> f \<noteq> ''0.0'' \<and> f \<noteq> ''-0.0'' | JStr s \<Rightarrow> s \<noteq> [] | JList xs \<Rightarrow> xs \<noteq> []
       | JDict d \<Rightarrow> d \<noteq> [])"
    by (simp add: truthy_def)
next
  assume "items \<noteq> []"
  then show "explain_json_route generate (JDict items) =
        resolve_and_respond generate items (request_payload items) (request_code_path items)"
    by (rule explain_json_route_dict)
next
  assume ne: "items \<noteq> []"
  let ?res = "resolve (request_payload items) (request_code_path items)"
  show "(\<exists>calls. explain_json_route generate (JDict items) = (Failure 400 ''No code found'', calls)) \<longleftrightarrow>
       (\<exists>r. ?res = Inr r \<and> \<not> str_truthy (fst r))"
  proof
    assume "\<exists>calls. explain_json_route generate (JDict items) = (Failure 400 ''No code found'', calls)"
    then obtain calls where
      "resolve_and_respond generate items (request_payload items) (request_code_path items) =
         (Failure 400 ''No code found'', calls)"
      using ne by (auto simp: explain_json_route_dict)
    then obtain r where "?res = Inr r" "respond generate items r = (Failure 400 ''No code found'', calls)"
      by (auto simp: resolve_and_respond_def split: sum.splits)
    then show "\<exists>r. ?res = Inr r \<and> \<not> str_truthy (fst r)"
      using respond_Failure by blast
  next
    assume "\<exists>r. ?res = Inr r \<and> \<not> str_truthy (fst r)"
    then obtain r where "?res = Inr r" "\<not> str_truthy (fst r)" by blast
    then have "explain_json_route generate (JDict items) = (Failure 400 ''No code found'', [])"
      using ne by (simp add: explain_json_route_dict resolve_and_respond_def respond_no_code)
    then show "\<exists>calls. explain_json_route generate (JDict items) = (Failure 400 ''No code found'', calls)"
      by blast
  qed
next
  assume "resolve payload code_path = Inr res"
  then show "\<not> str_truthy (fst res) \<longleftrightarrow>
         (\<exists>r1 r2. try_explicit_path payload code_path = Inr r1 \<and> \<not> str_truthy (fst r1) \<and>
            try_common_fields payload r1 = Inr r2 \<and> \<not> str_truthy (fst r2) \<and>
            \<not> str_truthy (fst (extract_code_from_json payload)))"
    by (rule resolve_no_code_iff)
next
  assume "explain_json_route generate body = (Failure status msg, calls)"
  then show "calls = []" by (rule explain_json_route_Failure)
qed

theorem malformed_and_no_code_witness:
  "[(''payload'', JDict [(''note'', JStr ''short'')])] \<noteq> [] \<and>
   resolve (request_payload [(''payload'', JDict [(''note'', JStr ''short'')])])
           (request_code_path [(''payload'', JDict [(''note'', JStr ''short'')])]) = Inr (None, None) \<and>
   \<not> str_truthy (fst (None :: string option, None :: string option)) \<and>
   explain_json_route (\<lambda>p. Some ''ok'') (JDict [(''payload'', JDict [(''note'', JStr ''short'')])]) =
     (Failure 400 ''No code found'', [])"
proof -
  let ?items = "[(''payload'', JDict [(''note'', JStr ''short'')])]"
  let ?g = "\<lambda>p :: string. Some ''ok''"
  have ne: "?items \<noteq> []" by simp
  have r: "resolve (request_payload ?items) (request_code_path ?items) = Inr (None, None)"
    by code_simp
  have t: "\<not> str_truthy (fst (None :: string option, None :: string option))"
    by (simp add: str_truthy_def)
  note m = malformed_and_no_code [where body = "JDict ?items" and generate = ?g and items = ?items
      and status = 400 and msg = "''No code found''"]
  from r t have "\<exists>r. resolve (request_payload ?items) (request_code_path ?items) = Inr r \<and>
      \<not> str_truthy (fst r)" by blast
  with m ne obtain calls where
    c: "explain_json_route ?g (JDict ?items) = (Failure 400 ''No code found'', calls)" by blast
  with m have "calls = []" by blast
  with c ne r t show ?thesis by simp
qed

section \<open>From the extractor's path back to the leaf\<close>

lemma py_split_no_sep: "sep \<notin> set t \<Longrightarrow> py_split sep t = [t]"
  by (induction t) (auto simp: Let_def)

lemma py_split_append: "sep \<notin> set t \<Longrightarrow> py_split sep (t @ sep # rest) = t # py_split sep rest"
  by (induction t) (auto simp: Let_def)

lemma py_split_join:
  "ts \<noteq> [] \<Longrightarrow> \<forall>t \<in> set ts. sep \<notin> set t \<Longrightarrow> py_split sep (py_join [sep] ts) = ts"
proof (induction "[sep]" ts rule: py_join.induct)
  case 1
  then show ?case by simp
next
  case (2 x)
  then show ?case by (simp add: py_split_no_sep)
next
  case (3 x y ys)
  then show ?case by (simp add: py_split_append)
qed

lemma of_char_digit_char: "d < 10 \<Longrightarrow> (of_char (digit_char d) :: nat) = 48 + d"
  by (simp add: digit_char_def)

lemma is_digit_digit_char: "d < 10 \<Longrightarrow> is_digit (digit_char d)"
  by (simp add: is_digit_def of_char_digit_char)

lemma digit_val_digit_char: "d < 10 \<Longrightarrow> digit_val (digit_char d) = d"
  by (simp add: digit_val_def of_char_digit_char)

lemma is_digit_not_special:
  "is_digit c \<Longrightarrow> \<not> int_isspace c \<and> c \<noteq> CHR ''-'' \<and> c \<noteq> CHR ''+'' \<and> c \<noteq> CHR ''.''"
  by (auto simp: is_digit_def int_isspace_def)

lemma str_nat_digits: "list_all is_digit (str_nat n) \<and> str_nat n \<noteq> []"
proof (induction n rule: str_nat.induct)
  case (1 n)
  show ?case
  proof (cases "n < 10")
    case True
    then show ?thesis by (subst (1 2) str_nat.simps) (simp add: is_digit_digit_char)
  next
    case False
    with 1 show ?thesis by (subst (1 2) str_nat.simps) (simp add: is_digit_digit_char)
  qed
qed

lemma parse_digits_all:
  "list_all is_digit ds \<Longrightarrow>
     parse_digits acc ds = Some (foldl (\<lambda>a c. a * 10 + digit_val c) acc ds)"
  by (induction acc ds rule: parse_digits.induct) auto

lemma foldl_str_nat: "foldl (\<lambda>a c. a * 10 + digit_val c) 0 (str_nat n) = n"
proof (induction n rule: str_nat.induct)
  case (1 n)
  show ?case
  proof (cases "n < 10")
    case True
    then show ?thesis by (subst str_nat.simps) (simp add: digit_val_digit_char)
  next
    case False
    with 1 show ?thesis by (subst str_nat.simps) (simp add: digit_val_digit_char)
  qed
qed

lemma parse_unsigned_str_nat: "parse_unsigned (str_nat n) = Some n"
proof -
  from str_nat_digits [of n] obtain c cs where s: "str_nat n = c # cs"
    and c: "is_digit c" and cs: "list_all is_digit cs"
    by (cases "str_nat n") auto
  have "parse_unsigned (str_nat n) = Some (foldl (\<lambda>a c. a * 10 + digit_val c) (digit_val c) cs)"
    using s c cs by (simp add: parse_unsigned_def parse_digits_all)
  also have "\<dots> = Some (foldl (\<lambda>a c. a * 10 + digit_val c) 0 (str_nat n))"
    using s by simp
  finally show ?thesis by (simp add: foldl_str_nat)
qed

lemma py_int_str_nat: "py_int (str_nat n) = Some (int n)"
proof -
  from str_nat_digits [of n] obtain c cs where s: "str_nat n = c # cs"
    and c: "is_digit c" and ne: "str_nat n \<noteq> []" and all: "list_all is_digit (str_nat n)"
    by (cases "str_nat n") auto
  from all ne have "is_digit (last (str_nat n))" by (simp add: list_all_iff)
  then have l: "\<not> int_isspace (hd (rev (str_nat n)))"
    using ne by (simp add: hd_rev is_digit_not_special)
  have 1: "dropWhile int_isspace (str_nat n) = str_nat n"
    using s c by (simp add: is_digit_not_special)
  have 2: "dropWhile int_isspace (rev (str_nat n)) = rev (str_nat n)"
    using l ne by (simp add: dropWhile_eq_self_iff)
  have "py_int (str_nat n) = map_option int (parse_unsigned (str_nat n))"
    unfolding py_int_def 1 2 using s c by (simp add: is_digit_not_special)
  then show ?thesis by (simp add: parse_unsigned_str_nat)
qed

lemma index_token_segment:
  "is_index_segment (index_token i) \<and> butlast (tl (index_token i)) = str_nat i \<and>
   CHR ''.'' \<notin> set (index_token i)"
proof -
  have "CHR ''.'' \<notin> set (str_nat i)"
    using str_nat_digits [of i] is_digit_not_special by (auto simp: list_all_iff)
  then show ?thesis by (simp add: index_token_def is_index_segment_def butlast_append)
qed

lemma path_step_index:
  "i < length xs \<Longrightarrow> path_step (JList xs) (index_token i) = Inr (xs ! i)"
  by (simp add: path_step_def index_token_segment py_int_str_nat py_getitem_def seq_index_def)

lemma path_step_key:
  "distinct (map fst items) \<Longrightarrow> (k, v) \<in> set items \<Longrightarrow> plain_key k \<Longrightarrow>
     path_step (JDict items) k = Inr v"
  by (simp add: path_step_def plain_key_def py_get_def dict_get_def)

lemma leaf_path_walk:
  "dict_keys_distinct v \<Longrightarrow> keys_plain v \<Longrightarrow> (p, s) \<in> set (string_leaves v pre) \<Longrightarrow>
     \<exists>ts. p = pre @ ts \<and> walk_path ts v = Inr (JStr s) \<and> (\<forall>t \<in> set ts. CHR ''.'' \<notin> set t)"
proof (induction v pre arbitrary: p s rule: string_leaves.induct)
  case (1 items path)
  from 1(4) obtain k v' where kv: "(k, v') \<in> set items"
    and leaf: "(p, s) \<in> set (string_leaves v' (path @ [k]))" by auto
  from 1(2) kv have d: "distinct (map fst items)" "dict_keys_distinct v'"
    by (auto simp: list_all_iff)
  from 1(3) kv have pl: "plain_key k" "keys_plain v'" by (auto simp: list_all_iff)
  from 1(1) [OF kv refl d(2) pl(2) leaf] obtain ts where
    ts: "p = (path @ [k]) @ ts" "walk_path ts v' = Inr (JStr s)" "\<forall>t \<in> set ts. CHR ''.'' \<notin> set t"
    by blast
  have "walk_path (k # ts) (JDict items) = Inr (JStr s)"
    using path_step_key [OF d(1) kv pl(1)] ts(2) by simp
  moreover have "\<forall>t \<in> set (k # ts). CHR ''.'' \<notin> set t"
    using ts(3) pl(1) by (simp add: plain_key_def)
  moreover have "p = path @ (k # ts)" using ts(1) by simp
  ultimately show ?case by blast
next
  case (2 xs path)
  from 2(4) obtain i v' where iv: "(i, v') \<in> set (enumerate 0 xs)"
    and leaf: "(p, s) \<in> set (string_leaves v' (path @ [index_token i]))" by auto
  from iv have i: "i < length xs" "v' = xs ! i" by (auto simp: in_set_enumerate_eq)
  then have mem: "v' \<in> set xs" by simp
  from 2(2) mem have d: "dict_keys_distinct v'" by (simp add: list_all_iff)
  from 2(3) mem have pl: "keys_plain v'" by (simp add: list_all_iff)
  from 2(1) [OF iv refl d pl leaf] obtain ts where
    ts: "p = (path @ [index_token i]) @ ts" "walk_path ts v' = Inr (JStr s)"
      "\<forall>t \<in> set ts. CHR ''.'' \<notin> set t" by blast
  have "walk_path (index_token i # ts) (JList xs) = Inr (JStr s)"
    using path_step_index [OF i(1)] i(2) ts(2) by simp
  moreover have "\<forall>t \<in> set (index_token i # ts). CHR ''.'' \<notin> set t"
    using ts(3) index_token_segment [of i] by simp
  moreover have "p = path @ (index_token i # ts)" using ts(1) by simp
  ultimately show ?case by blast
next
  case (3 s' path)
  then show ?case by simp
qed simp_all

text \<open>
  Claim C10. When no mapping key, at any depth, contains a \<open>.\<close> or both starts with \<open>[\<close> and
  ends with \<open>]\<close>, and the extractor returns a non-empty path, the handler's explicit-path walk
  along that path (split on \<open>.\<close>, bracketed numbers as indices, other segments as keys)
  succeeds on the same payload and reaches a string whose trimmed form is the returned code.
  The keys of each \<open>dict\<close> are distinct, as Python's are.
\<close>

theorem extracted_path_walks_back:
  assumes "dict_keys_distinct obj" and "keys_plain obj"
    and "extract_code_from_json obj = (Some code, Some path)" and "path \<noteq> []"
  shows "\<exists>s. walk_path (py_split (CHR ''.'') path) obj = Inr (JStr s) \<and> py_strip s = code \<and>
           try_explicit_path obj (JStr path) = Inr (Some s, Some path)"
proof -
  have ne: "qualifying_leaves obj \<noteq> []"
    using assms(3) extract_none [of obj] by auto
  from extract_winner [OF ne] obtain pre w post where
    L: "qualifying_leaves obj = pre @ w # post" and
    e: "extract_code_from_json obj = (Some (py_strip (snd w)), Some (py_join ''.'' (fst w)))"
    by blast
  from L have w: "w \<in> set (qualifying_leaves obj)" by simp
  from e assms(3) have c: "code = py_strip (snd w)" and p: "path = py_join ''.'' (fst w)"
    by simp_all
  from w have "(fst w, snd w) \<in> set (string_leaves obj [])"
    by (simp add: qualifying_leaves_def)
  from leaf_path_walk [OF assms(1,2) this] have
    walk: "walk_path (fst w) obj = Inr (JStr (snd w))" and
    nodot: "\<forall>t \<in> set (fst w). CHR ''.'' \<notin> set t" by auto
  from p assms(4) have "fst w \<noteq> []" by auto
  with nodot p have "py_split (CHR ''.'') path = fst w"
    by (simp add: py_split_join)
  with walk have 1: "walk_path (py_split (CHR ''.'') path) obj = Inr (JStr (snd w))" by simp
  with assms(4) have "try_explicit_path obj (JStr path) = Inr (Some (snd w), Some path)"
    by (simp add: try_explicit_path_str normalize_code_def)
  with 1 c show ?thesis by blast
qed

theorem extracted_path_walks_back_witness:
  "dict_keys_distinct (JDict [(''data'', JList [JDict [(''x'', JStr ''short'')],
                                                 JDict [(''code'', JStr ''  def f(): pass  '')]])]) \<and>
   keys_plain (JDict [(''data'', JList [JDict [(''x'', JStr ''short'')],
                                         JDict [(''code'', JStr ''  def f(): pass  '')]])]) \<and>
   extract_code_from_json (JDict [(''data'', JList [JDict [(''x'', JStr ''short'')],
                                                     JDict [(''code'', JStr ''  def f(): pass  '')]])]) =
     (Some ''def f(): pass'', Some ''data.[1].code'') \<and>
   ''data.[1].code'' \<noteq> [] \<and>
   walk_path (py_split (CHR ''.'') ''data.[1].code'')
     (JDict [(''data'', JList [JDict [(''x'', JStr ''short'')],
                               JDict [(''code'', JStr ''  def f(): pass  '')]])]) =
     Inr (JStr ''  def f(): pass  '') \<and>
   py_strip ''  def f(): pass  '' = ''def f(): pass''"
proof -
  let ?obj = "JDict [(''data'', JList [JDict [(''x'', JStr ''short'')],
                                       JDict [(''code'', JStr ''  def f(): pass  '')]])]"
  have d: "dict_keys_distinct ?obj" by code_simp
  have k: "keys_plain ?obj" by code_simp
  have e: "extract_code_from_json ?obj = (Some ''def f(): pass'', Some ''data.[1].code'')"
    by code_simp
  have n: "''data.[1].code'' \<noteq> []" by simp
  have w: "walk_path (py_split (CHR ''.'') ''data.[1].code'') ?obj = Inr (JStr ''  def f(): pass  '')"
    by code_simp
  from extracted_path_walks_back [OF d k e n] obtain s where
    "walk_path (py_split (CHR ''.'') ''data.[1].code'') ?obj = Inr (JStr s)"
    "py_strip s = ''def f(): pass''" by blast
  with w have "py_strip ''  def f(): pass  '' = ''def f(): pass''" by simp
  with d k e n w show ?thesis by (intro conjI)
qed

end
